theory Spec2Isabelle
  imports Main "HOL-Library.Word" "HOL-Library.Monad_Syntax"
begin

unbundle bit_operations_syntax

section \<open>The ABACOM USB relay board driver (abacomrelay.c)\<close>

text \<open>
  The driver is embedded function by function. Kernel memory the driver allocates is an
  explicit store, the USB core is a log of the bulk messages handed to it together with
  the outcome of each call, and every value the kernel supplies from outside the driver
  (the jiffies counter, an allocation that fails, a user buffer that faults) is an
  argument of the function that consumes it. The mutex of the device is taken and
  released around whole operations only, so in this sequential model every driver entry
  point is one atomic step.
\<close>

subsection \<open>Constants\<close>

type_synonym byte = "8 word"

definition ENOMEM :: int where "ENOMEM = 12"
definition EFAULT :: int where "EFAULT = 14"
definition ENODEV :: int where "ENODEV = 19"

text \<open>\<^verbatim>\<open>#define RELAY_CMD(b) {0xa1,0x6a,0x1f,0x00,0x10,b,0x3f,0x00,0x00,0x00,0x00}\<close>\<close>

definition RELAY_CMD :: "byte \<Rightarrow> byte list" where
  "RELAY_CMD b = [0xa1, 0x6a, 0x1f, 0x00, 0x10, b, 0x3f, 0x00, 0x00, 0x00, 0x00]"

definition RELAY_CMD_LENGTH :: int where "RELAY_CMD_LENGTH = 11"

text \<open>\<^verbatim>\<open>#define RELAY_READ_FREQ_MAX (HZ / 2)\<close>; the tick rate \<open>HZ\<close> is a build-time
  constant of the kernel and a parameter here.\<close>

definition RELAY_READ_FREQ_MAX :: "nat \<Rightarrow> nat" where
  "RELAY_READ_FREQ_MAX HZ = HZ div 2"

subsection \<open>The USB core as seen by the driver\<close>

text \<open>
  One entry per call of \<open>usb_bulk_msg\<close>: the device, the endpoint of the pipe and the
  bytes submitted. \<open>reply n\<close> is what the \<open>n\<close>-th call (counted from 0) returns: its
  return value and the transferred length it stores in \<open>actual_length\<close>. The timeout
  of a call shows in its outcome only.
\<close>

record urb =
  urb_dev :: nat
  urb_endpoint :: nat
  urb_data :: "byte list"

record usb_bus =
  sent :: "urb list"
  reply :: "nat \<Rightarrow> int \<times> int"

definition usb_bulk_msg :: "usb_bus \<Rightarrow> nat \<Rightarrow> nat \<Rightarrow> byte list \<Rightarrow> int \<Rightarrow> usb_bus \<times> int \<times> int" where
  "usb_bulk_msg bus dev ep data len =
     (case reply bus (length (sent bus)) of
        (rc, actual_length) \<Rightarrow>
          (bus\<lparr>sent := sent bus @ [\<lparr>urb_dev = dev, urb_endpoint = ep, urb_data = take (nat len) data\<rparr>]\<rparr>,
           rc, actual_length))"

subsection \<open>Driver structures\<close>

text \<open>\<open>struct usb_relayboard\<close>. Pointers are addresses into the stores below; \<open>kref\<close>
  is the counter inside \<open>struct kref\<close>.\<close>

record usb_relayboard =
  udev :: nat
  interface :: "nat option"
  kref :: int
  relay_states :: byte

subsection \<open>Sending one command and a whole status\<close>

definition send_relay_cmd :: "usb_bus \<Rightarrow> usb_relayboard \<Rightarrow> byte \<Rightarrow> usb_bus \<times> int" where
  "send_relay_cmd bus dev cmd =
     (let transfer_bytes = RELAY_CMD cmd in
      case usb_bulk_msg bus (udev dev) 2 transfer_bytes RELAY_CMD_LENGTH of
        (bus', rc, actual_length) \<Rightarrow>
          if rc \<noteq> 0 then (bus', - EFAULT)
          else (bus', if actual_length \<noteq> RELAY_CMD_LENGTH then 1 else 0))"

text \<open>The \<open>for (mask = 128; mask > 0; mask >>= 1)\<close> loop of \<open>relayboard_send_status\<close>.
  The Boolean of the result is \<open>True\<close> when the loop left through \<open>goto error\<close>.\<close>

function relay_loop :: "usb_relayboard \<Rightarrow> byte \<Rightarrow> byte \<Rightarrow> usb_bus \<Rightarrow> usb_bus \<times> bool" where
  "relay_loop dev status m bus =
     (if m > 0 then
        (if status AND m \<noteq> 0 then
           (case send_relay_cmd bus dev 0x20 of (b1, r1) \<Rightarrow>
            if r1 \<noteq> 0 then (b1, True) else
            case send_relay_cmd b1 dev 0x28 of (b2, r2) \<Rightarrow>
            if r2 \<noteq> 0 then (b2, True) else
            case send_relay_cmd b2 dev 0x20 of (b3, r3) \<Rightarrow>
            if r3 \<noteq> 0 then (b3, True) else
            relay_loop dev status (drop_bit 1 m) b3)
         else
           (case send_relay_cmd bus dev 0x00 of (b1, r1) \<Rightarrow>
            if r1 \<noteq> 0 then (b1, True) else
            case send_relay_cmd b1 dev 0x08 of (b2, r2) \<Rightarrow>
            if r2 \<noteq> 0 then (b2, True) else
            case send_relay_cmd b2 dev 0x00 of (b3, r3) \<Rightarrow>
            if r3 \<noteq> 0 then (b3, True) else
            relay_loop dev status (drop_bit 1 m) b3))
      else (bus, False))"
  by pat_completeness auto

termination relay_loop
proof (relation "measure (\<lambda>(dev, status, m, bus). unat m)")
  show "wf (measure (\<lambda>(dev, status, m, bus). unat m))"
    by simp
next
  fix m :: byte
  assume "0 < m"
  then have "0 < unat m"
    by (simp add: word_greater_zero_iff unat_gt_0)
  moreover have "unat (drop_bit 1 m) = unat m div 2"
    by (simp add: drop_bit_eq_div unat_div)
  ultimately have less: "unat (drop_bit 1 m) < unat m"
    by simp
  fix dev :: usb_relayboard and status :: byte and bus b3 :: usb_bus
  from less show "((dev, status, drop_bit 1 m, b3), (dev, status, m, bus))
      \<in> measure (\<lambda>(dev, status, m, bus). unat m)"
    by simp
  from less show "((dev, status, drop_bit 1 m, b3), (dev, status, m, bus))
      \<in> measure (\<lambda>(dev, status, m, bus). unat m)"
    by simp
qed

declare relay_loop.simps [simp del]

definition relayboard_send_status :: "usb_bus \<Rightarrow> usb_relayboard \<Rightarrow> byte \<Rightarrow> usb_bus \<times> usb_relayboard \<times> int" where
  "relayboard_send_status bus dev status =
     (case send_relay_cmd bus dev 0x00 of (b0, r0) \<Rightarrow>
      if r0 \<noteq> 0 then (b0, dev, - EFAULT) else
      case relay_loop dev status 128 b0 of (b1, err) \<Rightarrow>
      if err then (b1, dev, - EFAULT) else
      case send_relay_cmd b1 dev 0x00 of (b2, r2) \<Rightarrow>
      if r2 \<noteq> 0 then (b2, dev, - EFAULT) else
      case send_relay_cmd b2 dev 0x01 of (b3, r3) \<Rightarrow>
      if r3 \<noteq> 0 then (b3, dev, - EFAULT) else
      (b3, dev\<lparr>relay_states := status\<rparr>, 0))"

text \<open>\<open>struct file_additions\<close>, the private data of one open file. \<open>unsigned long\<close>
  is a word of the platform's width \<open>'w\<close>.\<close>

definition ULONG_MAX :: "('w::len) word" where
  "ULONG_MAX = - 1"

record (overloaded) ('w::len) file_additions =
  device :: "nat option"
  last_call :: "'w word"

text \<open>
  The kernel state the driver works on: the \<open>usb_relayboard\<close> structures it has
  allocated (by address), the private data of every open file (by \<open>struct file\<close>), the
  driver data pointer of every interface (\<open>usb_set_intfdata\<close>), the minor numbers the
  USB core has registered (\<open>usb_register_dev\<close>), the bus, and the next unused address.
\<close>

record (overloaded) ('w::len) kernel =
  devs :: "nat \<rightharpoonup> usb_relayboard"
  files :: "nat \<rightharpoonup> 'w file_additions"
  intfdata :: "nat \<rightharpoonup> nat"
  minors :: "nat \<rightharpoonup> nat"
  usb :: usb_bus
  brk :: nat

text \<open>The fields of the USB descriptors that \<open>relayboard_probe\<close> looks at.\<close>

record usb_descr =
  bNumConfigurations :: nat
  bMaxPower :: nat
  bNumInterfaces :: nat
  bNumEndpoints :: nat

subsection \<open>Reference counting and device handling\<close>

text \<open>\<open>relayboard_free\<close>: the release function of the kref, \<open>kfree(dev)\<close>. Its
  \<open>usb_put_dev\<close> gives back a reference that the USB core counts, not the driver.\<close>

definition relayboard_free :: "('w::len) kernel \<Rightarrow> nat \<Rightarrow> 'w kernel" where
  "relayboard_free k p = k\<lparr>devs := (devs k)(p := None)\<rparr>"

text \<open>\<open>kref_get\<close> and \<open>kref_put(&dev->kref, relayboard_free)\<close>. Touching a structure
  that is not allocated has no defined result: \<open>None\<close>.\<close>

definition kref_get :: "('w::len) kernel \<Rightarrow> nat \<Rightarrow> 'w kernel option" where
  "kref_get k p =
     (case devs k p of
        None \<Rightarrow> None
      | Some dev \<Rightarrow> Some (k\<lparr>devs := (devs k)(p \<mapsto> dev\<lparr>kref := kref dev + 1\<rparr>)\<rparr>))"

definition kref_put :: "('w::len) kernel \<Rightarrow> nat \<Rightarrow> 'w kernel option" where
  "kref_put k p =
     (case devs k p of
        None \<Rightarrow> None
      | Some dev \<Rightarrow>
          if kref dev - 1 = 0 then Some (relayboard_free k p)
          else Some (k\<lparr>devs := (devs k)(p \<mapsto> dev\<lparr>kref := kref dev - 1\<rparr>)\<rparr>))"

text \<open>
  \<open>relayboard_probe\<close>. \<open>usbdev\<close> is \<open>interface_to_usbdev(interface)\<close> and \<open>descr\<close>
  its descriptors; \<open>alloc_ok\<close> says whether \<open>kzalloc\<close> succeeds; \<open>result\<close> and
  \<open>minor\<close> are what \<open>usb_register_dev\<close> returns and the minor number it assigns.
\<close>

definition relayboard_probe ::
  "('w::len) kernel \<Rightarrow> nat \<Rightarrow> nat \<Rightarrow> usb_descr \<Rightarrow> bool \<Rightarrow> int \<Rightarrow> nat \<Rightarrow> ('w kernel \<times> int) option" where
  "relayboard_probe k intf usbdev descr alloc_ok result minor =
     (if bNumConfigurations descr = 1 \<and> bMaxPower descr = 48
         \<and> bNumInterfaces descr = 1 \<and> bNumEndpoints descr = 3 then
        (if \<not> alloc_ok then Some (k, - ENOMEM)
         else
           let p = brk k;
               zeroed = \<lparr>udev = 0, interface = None, kref = 0, relay_states = 0\<rparr>;
               dev = zeroed\<lparr>kref := 1, udev := usbdev, interface := Some intf\<rparr>;
               k1 = k\<lparr>devs := (devs k)(p \<mapsto> dev), brk := Suc p,
                      intfdata := (intfdata k)(intf \<mapsto> p)\<rparr>
           in if result \<noteq> 0 then
                do {
                  k2 \<leftarrow> kref_put (k1\<lparr>intfdata := (intfdata k1)(intf := None)\<rparr>) p;
                  Some (k2, result)
                }
              else Some (k1\<lparr>minors := (minors k1)(minor \<mapsto> intf)\<rparr>, result))
      else Some (k, - ENODEV))"

text \<open>\<open>relayboard_disconnect\<close>. \<open>usb_deregister_dev\<close> gives back the minor numbers of
  the interface.\<close>

definition relayboard_disconnect :: "('w::len) kernel \<Rightarrow> nat \<Rightarrow> 'w kernel option" where
  "relayboard_disconnect k intf =
     do {
       p \<leftarrow> intfdata k intf;
       dev \<leftarrow> devs k p;
       let k1 = k\<lparr>intfdata := (intfdata k)(intf := None),
                  minors := (\<lambda>m. if minors k m = Some intf then None else minors k m),
                  devs := (devs k)(p \<mapsto> dev\<lparr>interface := None\<rparr>)\<rparr>;
       kref_put k1 p
     }"

subsection \<open>The system calls\<close>

text \<open>\<open>relayboard_open\<close>: \<open>minor\<close> is \<open>iminor(inode)\<close>, \<open>file\<close> the \<open>struct file\<close>
  being opened, \<open>alloc_ok\<close> whether \<open>kzalloc\<close> of the \<open>file_additions\<close> succeeds.\<close>

definition relayboard_open ::
  "('w::len) kernel \<Rightarrow> nat \<Rightarrow> nat \<Rightarrow> bool \<Rightarrow> ('w kernel \<times> int) option" where
  "relayboard_open k minor file alloc_ok =
     (case minors k minor of
        None \<Rightarrow> Some (k, - ENODEV)
      | Some intf \<Rightarrow>
          (case intfdata k intf of
             None \<Rightarrow> Some (k, - ENODEV)
           | Some p \<Rightarrow>
               do {
                 k1 \<leftarrow> kref_get k p;
                 if \<not> alloc_ok then Some (k1, - ENOMEM)
                 else Some (k1\<lparr>files := (files k1)(file \<mapsto> \<lparr>device = Some p, last_call = 0\<rparr>)\<rparr>, 0)
               }))"

definition relayboard_close :: "('w::len) kernel \<Rightarrow> nat \<Rightarrow> ('w kernel \<times> int) option" where
  "relayboard_close k file =
     do {
       infos \<leftarrow> files k file;
       case device infos of
         None \<Rightarrow> Some (k, - ENODEV)
       | Some p \<Rightarrow>
           do {
             k1 \<leftarrow> kref_put k p;
             Some (k1\<lparr>files := (files k1)(file := None)\<rparr>, 0)
           }
     }"

text \<open>
  \<open>simple_strtoul(cp, NULL, 10)\<close> of the kernel library: no sign, no leading white
  space; it consumes decimal digits and stops at the first other byte, and the value
  wraps around in the unsigned type.
\<close>

definition isdigit :: "char \<Rightarrow> bool" where
  "isdigit c \<longleftrightarrow> 48 \<le> (of_char c :: nat) \<and> (of_char c :: nat) \<le> 57"

fun strtoul_digits :: "('w::len) word \<Rightarrow> string \<Rightarrow> 'w word" where
  "strtoul_digits result [] = result"
| "strtoul_digits result (c # cp) =
     (if isdigit c then strtoul_digits (result * 10 + of_nat (of_char c - 48)) cp
      else result)"

definition simple_strtoul :: "string \<Rightarrow> ('w::len) word" where
  "simple_strtoul cp = strtoul_digits 0 cp"

text \<open>
  \<open>relayboard_write\<close>. \<open>payload\<close> is the \<open>count\<close> bytes at \<open>user_buffer\<close>;
  \<open>alloc_ok\<close> and \<open>copy_ok\<close> say whether \<open>kzalloc\<close> and \<open>copy_from_user\<close> succeed.
  The local buffer holds exactly the \<open>count\<close> bytes copied and no terminator, so the
  parser runs on into \<open>slack\<close>, the bytes that follow the buffer in kernel memory. For
  \<open>count = 0\<close> the allocator hands out a pointer that must not be dereferenced, and
  the parser reads through it.
\<close>

definition relayboard_write ::
  "('w::len) kernel \<Rightarrow> nat \<Rightarrow> string \<Rightarrow> string \<Rightarrow> bool \<Rightarrow> bool \<Rightarrow> ('w kernel \<times> int) option" where
  "relayboard_write k file payload slack alloc_ok copy_ok =
     do {
       infos \<leftarrow> files k file;
       if \<not> alloc_ok then Some (k, - ENOMEM)
       else if \<not> copy_ok then Some (k, - EFAULT)
       else if payload = [] then None
       else
         let user_data = (ucast (simple_strtoul (payload @ slack) :: 'w word) :: byte) in
         do {
           p \<leftarrow> device infos;
           dev \<leftarrow> devs k p;
           case relayboard_send_status (usb k) dev user_data of
             (bus', dev', r) \<Rightarrow>
               Some (k\<lparr>usb := bus', devs := (devs k)(p \<mapsto> dev')\<rparr>,
                     if r \<noteq> 0 then - EFAULT else int (length payload))
         }
     }"

text \<open>\<open>snprintf(state_str, sz, "%d\n", v)\<close> for a value that is not negative: the
  decimal digits and a newline, cut to \<open>sz - 1\<close> characters.\<close>

fun decimal :: "nat \<Rightarrow> string" where
  "decimal n =
     (if n < 10 then [''0123456789'' ! n]
      else decimal (n div 10) @ [''0123456789'' ! (n mod 10)])"

declare decimal.simps [simp del]

definition snprintf_d_nl :: "nat \<Rightarrow> nat \<Rightarrow> string" where
  "snprintf_d_nl sz v = take (sz - 1) (decimal v @ [CHR 0x0A])"

text \<open>
  \<open>relayboard_read\<close>. \<open>jiffies\<close> is the tick counter at the call and \<open>writable\<close> the
  number of bytes at \<open>buffer\<close> that \<open>copy_to_user\<close> can write, so that it returns
  the number of bytes left over. The result carries the bytes delivered to the caller.
\<close>

definition relayboard_read ::
  "nat \<Rightarrow> ('w::len) kernel \<Rightarrow> nat \<Rightarrow> nat \<Rightarrow> 'w word \<Rightarrow> nat \<Rightarrow> ('w kernel \<times> int \<times> string) option" where
  "relayboard_read HZ k file count jiffies writable =
     (let timestamp = jiffies in
      if count < 4 then Some (k, 0, [])
      else
        do {
          infos \<leftarrow> files k file;
          let time_passed =
                (if last_call infos > timestamp
                 then ULONG_MAX - last_call infos + timestamp + 1
                 else timestamp - last_call infos);
          if time_passed < of_nat (RELAY_READ_FREQ_MAX HZ) then Some (k, 0, [])
          else
            do {
              p \<leftarrow> device infos;
              dev \<leftarrow> devs k p;
              let state_str = snprintf_d_nl 5 (unat (relay_states dev));
              let count1 = length state_str;
              let not_copied = count1 - min count1 writable;
              let count2 = count1 - not_copied;
              Some (k\<lparr>files := (files k)(file \<mapsto> infos\<lparr>last_call := timestamp\<rparr>)\<rparr>,
                    int count2, take count2 state_str)
            }
        })"

subsection \<open>Sequences of driver calls\<close>

text \<open>One call into the driver, with everything the kernel supplies to it.\<close>

datatype 't call =
    Probe nat nat usb_descr bool int nat
  | Disconnect nat
  | Open nat nat bool
  | Close nat
  | Read nat nat 't nat
  | Write nat string string bool bool

fun step :: "nat \<Rightarrow> ('w::len) word call \<Rightarrow> 'w kernel \<Rightarrow> ('w kernel \<times> int) option" where
  "step HZ (Probe intf usbdev descr alloc_ok result minor) k =
     relayboard_probe k intf usbdev descr alloc_ok result minor"
| "step HZ (Disconnect intf) k = map_option (\<lambda>k'. (k', 0)) (relayboard_disconnect k intf)"
| "step HZ (Open minor file alloc_ok) k = relayboard_open k minor file alloc_ok"
| "step HZ (Close file) k = relayboard_close k file"
| "step HZ (Read file count jiffies writable) k =
     map_option (\<lambda>(k', r, data). (k', r)) (relayboard_read HZ k file count jiffies writable)"
| "step HZ (Write file payload slack alloc_ok copy_ok) k =
     relayboard_write k file payload slack alloc_ok copy_ok"

fun run :: "nat \<Rightarrow> ('w::len) word call list \<Rightarrow> 'w kernel \<Rightarrow> 'w kernel option" where
  "run HZ [] k = Some k"
| "run HZ (c # cs) k = (case step HZ c k of None \<Rightarrow> None | Some (k', r) \<Rightarrow> run HZ cs k')"

text \<open>The state before any board is attached; \<open>r\<close> is the behaviour of the bus.\<close>

definition boot :: "(nat \<Rightarrow> int \<times> int) \<Rightarrow> ('w::len) kernel" where
  "boot r = \<lparr>devs = Map.empty, files = Map.empty, intfdata = Map.empty, minors = Map.empty,
             usb = \<lparr>sent = [], reply = r\<rparr>, brk = 1\<rparr>"

text \<open>A call that sets the mask of the device at address \<open>d\<close>: a write through a file
  opened on \<open>d\<close> that does not return an error.\<close>

definition commits :: "nat \<Rightarrow> ('w::len) word call \<Rightarrow> 'w kernel \<Rightarrow> bool" where
  "commits d c k =
     (case c of
        Write file payload slack alloc_ok copy_ok \<Rightarrow>
          (case files k file of
             None \<Rightarrow> False
           | Some infos \<Rightarrow>
               device infos = Some d \<and>
               (case relayboard_write k file payload slack alloc_ok copy_ok of
                  None \<Rightarrow> False
                | Some (k', r) \<Rightarrow> 0 \<le> r))
      | _ \<Rightarrow> False)"

text \<open>No call of the sequence sets the mask of \<open>d\<close>.\<close>

fun quiet :: "nat \<Rightarrow> nat \<Rightarrow> ('w::len) word call list \<Rightarrow> 'w kernel \<Rightarrow> bool" where
  "quiet HZ d [] k = True"
| "quiet HZ d (c # cs) k =
     (\<not> commits d c k \<and>
      (case step HZ c k of None \<Rightarrow> True | Some (k', r) \<Rightarrow> quiet HZ d cs k'))"

subsection \<open>The wire protocol and the text formats as the specification words them\<close>

text \<open>The command frame for a payload byte.\<close>

definition encode :: "byte \<Rightarrow> byte list" where
  "encode payload = [0xa1, 0x6a, 0x1f, 0x00, 0x10, payload, 0x3f, 0x00, 0x00, 0x00, 0x00]"

text \<open>The three payloads for bit position \<open>i\<close> of the target mask, and the payloads of a
  whole commit: header, bit 7 (value 128) down to bit 0 (value 1), trailer.\<close>

definition bit_frames :: "byte \<Rightarrow> nat \<Rightarrow> byte list" where
  "bit_frames targetMask i =
     (if bit targetMask i then [0x20, 0x28, 0x20] else [0x00, 0x08, 0x00])"

definition commit_payloads :: "byte \<Rightarrow> byte list" where
  "commit_payloads targetMask =
     [0x00] @ concat (map (bit_frames targetMask) [7, 6, 5, 4, 3, 2, 1, 0]) @ [0x00, 0x01]"

text \<open>A frame on its way to the board: bulk endpoint 2 of the device.\<close>

definition bulk_out :: "usb_relayboard \<Rightarrow> byte \<Rightarrow> urb" where
  "bulk_out dev payload = \<lparr>urb_dev = udev dev, urb_endpoint = 2, urb_data = encode payload\<rparr>"

text \<open>The bus accepts a frame: the send succeeds and acknowledges all 11 bytes.\<close>

definition accepts :: "int \<times> int \<Rightarrow> bool" where
  "accepts r \<longleftrightarrow> fst r = 0 \<and> snd r = 11"

text \<open>Sending a list of payloads in order, up to and including the first one that is
  not accepted; the Boolean tells whether one was refused.\<close>

fun cmds :: "usb_relayboard \<Rightarrow> byte list \<Rightarrow> usb_bus \<Rightarrow> usb_bus \<times> bool" where
  "cmds dev [] bus = (bus, False)"
| "cmds dev (c # cs) bus =
     (case send_relay_cmd bus dev c of
        (bus', r) \<Rightarrow> if r \<noteq> 0 then (bus', True) else cmds dev cs bus')"

text \<open>The number an ASCII decimal string denotes.\<close>

definition dec_value :: "string \<Rightarrow> nat" where
  "dec_value s = foldl (\<lambda>n c. 10 * n + (of_char c - 48)) 0 s"

text \<open>What a handle reports for a shadow mask: its decimal digits and a newline.\<close>

definition mask_text :: "byte \<Rightarrow> string" where
  "mask_text m = decimal (unat m) @ [CHR 0x0A]"

text \<open>The descriptors of a relay board.\<close>

definition board :: usb_descr where
  "board = \<lparr>bNumConfigurations = 1, bMaxPower = 48, bNumInterfaces = 1, bNumEndpoints = 3\<rparr>"

text \<open>A board on interface 7 (minor 0, USB device 3) with one open file, number 1, that
  has not read yet; \<open>m\<close> is the shadow mask and \<open>r\<close> the behaviour of the bus.\<close>

definition opened :: "(nat \<Rightarrow> int \<times> int) \<Rightarrow> byte \<Rightarrow> ('w::len) kernel" where
  "opened r m =
     \<lparr>devs = [1 \<mapsto> \<lparr>udev = 3, interface = Some 7, kref = 2, relay_states = m\<rparr>],
      files = [1 \<mapsto> \<lparr>device = Some 1, last_call = 0\<rparr>],
      intfdata = [7 \<mapsto> 1], minors = [0 \<mapsto> 7],
      usb = \<lparr>sent = [], reply = r\<rparr>, brk = 2\<rparr>"

text \<open>The same board with a second open file, number 2.\<close>

definition opened_twice :: "(nat \<Rightarrow> int \<times> int) \<Rightarrow> byte \<Rightarrow> ('w::len) kernel" where
  "opened_twice r m =
     \<lparr>devs = [1 \<mapsto> \<lparr>udev = 3, interface = Some 7, kref = 3, relay_states = m\<rparr>],
      files = [1 \<mapsto> \<lparr>device = Some 1, last_call = 0\<rparr>, 2 \<mapsto> \<lparr>device = Some 1, last_call = 0\<rparr>],
      intfdata = [7 \<mapsto> 1], minors = [0 \<mapsto> 7],
      usb = \<lparr>sent = [], reply = r\<rparr>, brk = 2\<rparr>"

subsection \<open>Relations between kernel states used in the proofs\<close>

text \<open>No device structure appears and none changes its shadow mask.\<close>

definition same_masks :: "('w::len) kernel \<Rightarrow> 'w kernel \<Rightarrow> bool" where
  "same_masks k k' \<longleftrightarrow>
     brk k' = brk k \<and>
     (\<forall>q. devs k' q = None \<or> map_option relay_states (devs k' q) = map_option relay_states (devs k q))"

text \<open>The allocator does not go back, and the structure at an address \<open>d\<close> it has handed
  out is freed or keeps its shadow mask.\<close>

definition keeps :: "nat \<Rightarrow> ('w::len) kernel \<Rightarrow> 'w kernel \<Rightarrow> bool" where
  "keeps d k k' \<longleftrightarrow>
     brk k \<le> brk k' \<and>
     (d < brk k \<longrightarrow>
        devs k' d = None \<or> map_option relay_states (devs k' d) = map_option relay_states (devs k d))"

text \<open>Every allocated device structure lies below the next unused address.\<close>

definition bounded :: "('w::len) kernel \<Rightarrow> bool" where
  "bounded k \<longleftrightarrow> (\<forall>q. devs k q \<noteq> None \<longrightarrow> q < brk k)"

subsection \<open>Reference counting\<close>

text \<open>The open files that point to the device structure at \<open>p\<close>, and whether an
  interface has \<open>p\<close> as its driver data.\<close>

definition holders :: "('w::len) kernel \<Rightarrow> nat \<Rightarrow> nat set" where
  "holders k p = {f. \<exists>i. files k f = Some i \<and> device i = Some p}"

definition registered :: "('w::len) kernel \<Rightarrow> nat \<Rightarrow> bool" where
  "registered k p \<longleftrightarrow> (\<exists>intf. intfdata k intf = Some p)"

text \<open>The reference counting invariant: device structures lie below the next unused
  address, finitely many files are open, every structure that an open file or an
  interface points to is allocated, the counter of a structure is at least the number of
  open files on it plus one for its registration, and no two interfaces share a
  structure.\<close>

definition refs_ok :: "('w::len) kernel \<Rightarrow> bool" where
  "refs_ok k \<longleftrightarrow>
     bounded k \<and> finite (dom (files k)) \<and>
     (\<forall>p. holders k p \<noteq> {} \<or> registered k p \<longrightarrow> devs k p \<noteq> None) \<and>
     (\<forall>p dev. devs k p = Some dev \<longrightarrow>
        int (card (holders k p)) + (if registered k p then 1 else 0) \<le> kref dev) \<and>
     (\<forall>a b p. intfdata k a = Some p \<and> intfdata k b = Some p \<longrightarrow> a = b)"

text \<open>The device structure at \<open>p\<close> has been detached: it was handed out by the
  allocator, no interface has it as its driver data, and while it is allocated its
  \<open>interface\<close> pointer is cleared.\<close>

definition gone :: "('w::len) kernel \<Rightarrow> nat \<Rightarrow> bool" where
  "gone k p \<longleftrightarrow>
     p < brk k \<and> \<not> registered k p \<and> (\<forall>dev. devs k p = Some dev \<longrightarrow> interface dev = None)"

section \<open>Properties\<close>

subsection \<open>The command sequence\<close>

lemma send_relay_cmd_eq:
  "send_relay_cmd bus dev c =
     (bus\<lparr>sent := sent bus @ [bulk_out dev c]\<rparr>,
      if fst (reply bus (length (sent bus))) \<noteq> 0 then - EFAULT
      else if snd (reply bus (length (sent bus))) \<noteq> 11 then 1 else 0)"
  by (cases "reply bus (length (sent bus))")
    (simp add: send_relay_cmd_def usb_bulk_msg_def RELAY_CMD_def RELAY_CMD_LENGTH_def
      bulk_out_def encode_def Let_def)

lemma send_relay_cmd_ok:
  "snd (send_relay_cmd bus dev c) = 0 \<longleftrightarrow> accepts (reply bus (length (sent bus)))"
  by (simp add: send_relay_cmd_eq accepts_def EFAULT_def)

lemma send_relay_cmd_bus:
  "fst (send_relay_cmd bus dev c) = bus\<lparr>sent := sent bus @ [bulk_out dev c]\<rparr>"
  by (simp add: send_relay_cmd_eq)

lemma cmds_Cons:
  "cmds dev (c # cs) bus =
     (if accepts (reply bus (length (sent bus)))
      then cmds dev cs (bus\<lparr>sent := sent bus @ [bulk_out dev c]\<rparr>)
      else (bus\<lparr>sent := sent bus @ [bulk_out dev c]\<rparr>, True))"
  using send_relay_cmd_ok [of bus dev c] send_relay_cmd_bus [of bus dev c]
  by (cases "send_relay_cmd bus dev c") auto

lemma cmds_append:
  "cmds dev (xs @ ys) bus =
     (case cmds dev xs bus of (b, err) \<Rightarrow> if err then (b, True) else cmds dev ys b)"
  by (induction xs arbitrary: bus) (simp_all add: cmds_Cons del: cmds.simps(2))

lemma cmds_all_accepted:
  "\<forall>i < length cs. accepts (reply bus (length (sent bus) + i)) \<Longrightarrow>
   cmds dev cs bus = (bus\<lparr>sent := sent bus @ map (bulk_out dev) cs\<rparr>, False)"
proof (induction cs arbitrary: bus)
  case Nil
  show ?case by simp
next
  case (Cons c cs)
  let ?b = "bus\<lparr>sent := sent bus @ [bulk_out dev c]\<rparr>"
  from Cons.prems have first: "accepts (reply bus (length (sent bus)))"
    by (metis add.right_neutral length_greater_0_conv list.distinct(1))
  have "\<forall>i < length cs. accepts (reply ?b (length (sent ?b) + i))"
  proof (intro allI impI)
    fix i assume "i < length cs"
    then have "Suc i < length (c # cs)" by simp
    with Cons.prems have "accepts (reply bus (length (sent bus) + Suc i))" by blast
    then show "accepts (reply ?b (length (sent ?b) + i))" by simp
  qed
  then have "cmds dev cs ?b = (?b\<lparr>sent := sent ?b @ map (bulk_out dev) cs\<rparr>, False)"
    by (rule Cons.IH)
  with first show ?case
    by (simp add: cmds_Cons del: cmds.simps(2))
qed

lemma cmds_first_refused:
  "n < length cs \<Longrightarrow> \<forall>i < n. accepts (reply bus (length (sent bus) + i)) \<Longrightarrow>
   \<not> accepts (reply bus (length (sent bus) + n)) \<Longrightarrow>
   cmds dev cs bus = (bus\<lparr>sent := sent bus @ map (bulk_out dev) (take (Suc n) cs)\<rparr>, True)"
proof (induction cs arbitrary: bus n)
  case Nil
  then show ?case by simp
next
  case (Cons c cs)
  let ?b = "bus\<lparr>sent := sent bus @ [bulk_out dev c]\<rparr>"
  show ?case
  proof (cases n)
    case 0
    with Cons.prems show ?thesis
      by (simp add: cmds_Cons del: cmds.simps(2))
  next
    case (Suc m)
    with Cons.prems have first: "accepts (reply bus (length (sent bus)))"
      by (metis add.right_neutral zero_less_Suc)
    from Suc Cons.prems have m: "m < length cs" by simp
    have acc: "\<forall>i < m. accepts (reply ?b (length (sent ?b) + i))"
    proof (intro allI impI)
      fix i assume "i < m"
      then have "Suc i < n" using Suc by simp
      with Cons.prems have "accepts (reply bus (length (sent bus) + Suc i))" by blast
      then show "accepts (reply ?b (length (sent ?b) + i))" by simp
    qed
    from Suc Cons.prems have ref: "\<not> accepts (reply ?b (length (sent ?b) + m))" by simp
    have "cmds dev cs ?b = (?b\<lparr>sent := sent ?b @ map (bulk_out dev) (take (Suc m) cs)\<rparr>, True)"
      using m acc ref by (rule Cons.IH)
    with first Suc show ?thesis
      by (simp add: cmds_Cons del: cmds.simps(2))
  qed
qed

lemma and_bit_byte: "(status :: byte) AND 2 ^ i \<noteq> 0 \<longleftrightarrow> bit status i"
  by (simp add: and_exp_eq_0_iff_not_bit)

lemma relay_loop_0: "relay_loop dev status 0 bus = cmds dev [] bus"
  by (simp add: relay_loop.simps)

lemma relay_loop_step:
  assumes m: "m = 2 ^ i" "i < 8"
    and rest: "\<And>b. relay_loop dev status (drop_bit 1 m) b = cmds dev rest b"
  shows "relay_loop dev status m bus = cmds dev (bit_frames status i @ rest) bus"
proof -
  from m have pos: "m > 0"
    by (simp add: word_greater_zero_iff)  
  have b: "(status AND m \<noteq> 0) = bit status i"
    using m by (simp add: and_bit_byte)
  show ?thesis
    apply (subst relay_loop.simps)
    apply (simp only: pos b if_True rest)
    apply (simp add: bit_frames_def cmds_append split: prod.split)
    done
qed


lemma relay_loop_128:
  "relay_loop dev status 128 bus =
     cmds dev (concat (map (bit_frames status) [7, 6, 5, 4, 3, 2, 1, 0])) bus"
proof -
  have l0: "\<And>b. relay_loop dev status 1 b = cmds dev (bit_frames status 0 @ []) b"
    by (rule relay_loop_step [where i = 0]) (simp_all add: relay_loop_0)
  have l1: "\<And>b. relay_loop dev status 2 b = cmds dev (bit_frames status 1 @ bit_frames status 0 @ []) b"
    by (rule relay_loop_step [where i = 1]) (simp_all add: l0)
  have l2: "\<And>b. relay_loop dev status 4 b =
      cmds dev (bit_frames status 2 @ bit_frames status 1 @ bit_frames status 0 @ []) b"
    by (rule relay_loop_step [where i = 2]) (simp_all add: l1)
  have l3: "\<And>b. relay_loop dev status 8 b =
      cmds dev (bit_frames status 3 @ bit_frames status 2 @ bit_frames status 1
        @ bit_frames status 0 @ []) b"
    by (rule relay_loop_step [where i = 3]) (simp_all add: l2)
  have l4: "\<And>b. relay_loop dev status 16 b =
      cmds dev (bit_frames status 4 @ bit_frames status 3 @ bit_frames status 2
        @ bit_frames status 1 @ bit_frames status 0 @ []) b"
    by (rule relay_loop_step [where i = 4]) (simp_all add: l3)
  have l5: "\<And>b. relay_loop dev status 32 b =
      cmds dev (bit_frames status 5 @ bit_frames status 4 @ bit_frames status 3
        @ bit_frames status 2 @ bit_frames status 1 @ bit_frames status 0 @ []) b"
    by (rule relay_loop_step [where i = 5]) (simp_all add: l4)
  have l6: "\<And>b. relay_loop dev status 64 b =
      cmds dev (bit_frames status 6 @ bit_frames status 5 @ bit_frames status 4
        @ bit_frames status 3 @ bit_frames status 2 @ bit_frames status 1
        @ bit_frames status 0 @ []) b"
    by (rule relay_loop_step [where i = 6]) (simp_all add: l5)
  have l7: "relay_loop dev status 128 bus =
      cmds dev (bit_frames status 7 @ bit_frames status 6 @ bit_frames status 5
        @ bit_frames status 4 @ bit_frames status 3 @ bit_frames status 2
        @ bit_frames status 1 @ bit_frames status 0 @ []) bus"
    by (rule relay_loop_step [where i = 7]) (simp_all add: l6)
  then show ?thesis by simp
qed

lemma length_commit_payloads: "length (commit_payloads status) = 27"
  by (simp add: commit_payloads_def bit_frames_def)

lemma relayboard_send_status_cmds:
  "relayboard_send_status bus dev status =
     (case cmds dev (commit_payloads status) bus of
        (b, err) \<Rightarrow> if err then (b, dev, - EFAULT) else (b, dev\<lparr>relay_states := status\<rparr>, 0))"
proof -
  let ?mid = "concat (map (bit_frames status) [7, 6, 5, 4, 3, 2, 1, 0])"
  have split3: "commit_payloads status = [0x00] @ ?mid @ [0x00, 0x01]"
    by (simp add: commit_payloads_def)
  show ?thesis
    unfolding split3 relayboard_send_status_def relay_loop_128
    by (simp add: cmds_append split: prod.split)
qed

lemma send_status_accepted:
  assumes "\<forall>i < 27. accepts (reply bus (length (sent bus) + i))"
  shows "relayboard_send_status bus dev status =
     (bus\<lparr>sent := sent bus @ map (bulk_out dev) (commit_payloads status)\<rparr>,
      dev\<lparr>relay_states := status\<rparr>, 0)"
proof -
  from assms have "\<forall>i < length (commit_payloads status). accepts (reply bus (length (sent bus) + i))"
    by (simp add: length_commit_payloads)
  then have "cmds dev (commit_payloads status) bus =
      (bus\<lparr>sent := sent bus @ map (bulk_out dev) (commit_payloads status)\<rparr>, False)"
    by (rule cmds_all_accepted)
  then show ?thesis
    by (simp add: relayboard_send_status_cmds)
qed

lemma send_status_refused:
  assumes "n < 27" and "\<forall>i < n. accepts (reply bus (length (sent bus) + i))"
    and "\<not> accepts (reply bus (length (sent bus) + n))"
  shows "relayboard_send_status bus dev status =
     (bus\<lparr>sent := sent bus @ map (bulk_out dev) (take (Suc n) (commit_payloads status))\<rparr>,
      dev, - EFAULT)"
proof -
  from assms(1) have "n < length (commit_payloads status)"
    by (simp add: length_commit_payloads)
  then have "cmds dev (commit_payloads status) bus =
      (bus\<lparr>sent := sent bus @ map (bulk_out dev) (take (Suc n) (commit_payloads status))\<rparr>, True)"
    using assms(2,3) by (rule cmds_first_refused)
  then show ?thesis
    by (simp add: relayboard_send_status_cmds)
qed

lemma send_status_result:
  "relayboard_send_status bus dev status = (b, dev', r) \<Longrightarrow>
     (r = 0 \<and> dev' = dev\<lparr>relay_states := status\<rparr>) \<or> (r = - EFAULT \<and> dev' = dev)"
  by (auto simp: relayboard_send_status_cmds split: prod.splits if_splits)

text \<open>
  C1. For every target mask, a commit on a bus that accepts every frame hands exactly 27
  frames to the bus, in the fixed order header \<open>encode 0x00\<close>, then for the bits of
  value 128 down to 1 the triple \<open>0x20, 0x28, 0x20\<close> when the bit is set and
  \<open>0x00, 0x08, 0x00\<close> when it is clear, then the trailer \<open>encode 0x00, encode 0x01\<close>.
  The sequence depends on the target mask only, and every frame is the 11-byte
  \<open>encode\<close> of its payload.
\<close>

theorem commit_emits_27_frames:
  assumes "\<forall>i < 27. reply bus (length (sent bus) + i) = (0, 11)"
  shows "relayboard_send_status bus dev targetMask =
           (bus\<lparr>sent := sent bus @ map (bulk_out dev) (commit_payloads targetMask)\<rparr>,
            dev\<lparr>relay_states := targetMask\<rparr>, 0)
         \<and> length (map (bulk_out dev) (commit_payloads targetMask)) = 27
         \<and> (\<forall>p. urb_data (bulk_out dev p) = encode p \<and> length (encode p) = 11)"
proof -
  from assms have "\<forall>i < 27. accepts (reply bus (length (sent bus) + i))"
    by (simp add: accepts_def)
  then show ?thesis
    by (simp add: send_status_accepted length_commit_payloads bulk_out_def encode_def)
qed

theorem commit_emits_27_frames_witness:
  "relayboard_send_status \<lparr>sent = [], reply = (\<lambda>n. (0, 11))\<rparr>
      \<lparr>udev = 3, interface = Some 7, kref = 2, relay_states = 0\<rparr> 5 =
     (\<lparr>sent = map (bulk_out \<lparr>udev = 3, interface = Some 7, kref = 2, relay_states = 0\<rparr>)
         [0x00,
          0x00, 0x08, 0x00,  0x00, 0x08, 0x00,  0x00, 0x08, 0x00,  0x00, 0x08, 0x00,
          0x00, 0x08, 0x00,  0x20, 0x28, 0x20,  0x00, 0x08, 0x00,  0x20, 0x28, 0x20,
          0x00, 0x01],
       reply = (\<lambda>n. (0, 11))\<rparr>,
      \<lparr>udev = 3, interface = Some 7, kref = 2, relay_states = 5\<rparr>, 0)"
  using commit_emits_27_frames [of "\<lparr>sent = [], reply = (\<lambda>n. (0, 11))\<rparr>"
      "\<lparr>udev = 3, interface = Some 7, kref = 2, relay_states = 0\<rparr>" 5]
  by (simp add: commit_payloads_def bit_frames_def)

subsection \<open>Reading and writing through a file\<close>

lemma time_passed_eq:
  "(if (lc :: 'w::len word) > ts then ULONG_MAX - lc + ts + 1 else ts - lc) = ts - lc"
  by (simp add: ULONG_MAX_def)

lemma length_decimal: "n < 1000 \<Longrightarrow> length (decimal n) \<le> 3"
proof -
  assume n: "n < 1000"
  have d1: "\<And>m. m < 10 \<Longrightarrow> length (decimal m) = 1"
    by (simp add: decimal.simps)
  have d2: "\<And>m. m < 100 \<Longrightarrow> length (decimal m) \<le> 2"
  proof -
    fix m :: nat assume "m < 100"
    then have "m div 10 < 10" by simp
    then have "length (decimal (m div 10)) = 1" by (rule d1)
    then show "length (decimal m) \<le> 2"
      by (subst decimal.simps) simp
  qed
  from n have "n div 10 < 100" by simp
  then have "length (decimal (n div 10)) \<le> 2" by (rule d2)
  then show ?thesis
    by (subst decimal.simps) simp
qed

lemma decimal_nonempty: "decimal n \<noteq> []"
  by (subst decimal.simps) simp

lemma snprintf_byte: "snprintf_d_nl 5 (unat (m :: byte)) = mask_text m"
proof -
  have "unat m < 256"
    using unsigned_less [of m, where ?'a = nat] by simp
  then have "length (decimal (unat m)) \<le> 3"
    by (intro length_decimal) simp
  then show ?thesis
    by (simp add: snprintf_d_nl_def mask_text_def)
qed

lemma length_mask_text: "length (mask_text m) \<le> 4" "0 < length (mask_text m)"
proof -
  have "unat m < 256"
    using unsigned_less [of m, where ?'a = nat] by simp
  then have "length (decimal (unat m)) \<le> 3"
    by (intro length_decimal) simp
  then show "length (mask_text m) \<le> 4" 
    by (simp add: mask_text_def)
  show "0 < length (mask_text m)"
    by (simp add: mask_text_def)
qed

text \<open>What a read does, case by case.\<close>

lemma read_small_count:
  "count < 4 \<Longrightarrow> relayboard_read HZ k file count jiffies writable = Some (k, 0, [])"
  by (simp add: relayboard_read_def)

lemma read_too_early:
  "files k file = Some infos \<Longrightarrow> jiffies - last_call infos < of_nat (HZ div 2) \<Longrightarrow>
   relayboard_read HZ k file count jiffies writable = Some (k, 0, [])"
  by (simp add: relayboard_read_def RELAY_READ_FREQ_MAX_def ULONG_MAX_def Let_def)

lemma read_passes:
  "4 \<le> count \<Longrightarrow> files k file = Some infos \<Longrightarrow>
   \<not> jiffies - last_call infos < of_nat (HZ div 2) \<Longrightarrow>
   device infos = Some p \<Longrightarrow> devs k p = Some dev \<Longrightarrow>
   relayboard_read HZ k file count jiffies writable =
     Some (k\<lparr>files := (files k)(file \<mapsto> infos\<lparr>last_call := jiffies\<rparr>)\<rparr>,
           int (min (length (mask_text (relay_states dev))) writable),
           take writable (mask_text (relay_states dev)))"
  by (simp add: relayboard_read_def RELAY_READ_FREQ_MAX_def ULONG_MAX_def Let_def snprintf_byte
      min_def)


lemma read_depends_on:
  "files k' = files k \<Longrightarrow> devs k' = devs k \<Longrightarrow>
   map_option snd (relayboard_read HZ k' g count jiffies writable) =
   map_option snd (relayboard_read HZ k g count jiffies writable)"
  by (simp add: relayboard_read_def Let_def split: option.split Option.bind_split)

lemma write_sends:
  "files k f = Some infos \<Longrightarrow> device infos = Some p \<Longrightarrow> devs k p = Some dev \<Longrightarrow>
   payload \<noteq> [] \<Longrightarrow>
   relayboard_write k f payload slack True True =
     (case relayboard_send_status (usb k) dev (ucast (simple_strtoul (payload @ slack) :: 'w word)) of
        (bus', dev', r) \<Rightarrow>
          Some (k\<lparr>usb := bus', devs := (devs k)(p \<mapsto> dev')\<rparr>,
                if r \<noteq> 0 then - EFAULT else int (length payload)))"
  for k :: "('w::len) kernel"
  by (simp add: relayboard_write_def Let_def)

lemma opened_reachable:
  "run HZ [Probe 7 3 board True 0 0, Open 0 1 True] (boot r) = Some (opened r 0)"
  by (simp add: relayboard_probe_def relayboard_open_def kref_get_def boot_def board_def opened_def)

text \<open>
  C2. If the bus accepts the first \<open>n\<close> frames of a commit and refuses frame \<open>n + 1\<close>
  (the send fails, or it acknowledges a length other than 11), for any \<open>n < 27\<close>, the
  write returns \<open>-EFAULT\<close> with exactly the first \<open>n + 1\<close> frames handed to the bus and
  nothing else changed: the device structure keeps its shadow mask, and every read
  afterwards returns what it would have returned before the write.
\<close>

theorem failed_commit_keeps_shadow_state:
  fixes k :: "('w::len) kernel"
  assumes "files k f = Some infos" and "device infos = Some p" and "devs k p = Some dev"
    and "payload \<noteq> []"
    and "n < 27"
    and "\<forall>i < n. accepts (reply (usb k) (length (sent (usb k)) + i))"
    and "\<not> accepts (reply (usb k) (length (sent (usb k)) + n))"
  shows "relayboard_write k f payload slack True True =
           Some (k\<lparr>usb := (usb k)\<lparr>sent := sent (usb k) @ map (bulk_out dev)
                   (take (Suc n) (commit_payloads (ucast (simple_strtoul (payload @ slack) :: 'w word))))\<rparr>\<rparr>,
                 - EFAULT)
         \<and> (\<forall>k' r g count jiffies writable.
               relayboard_write k f payload slack True True = Some (k', r) \<longrightarrow>
               devs k' p = Some dev \<and>
               map_option snd (relayboard_read HZ k' g count jiffies writable) =
               map_option snd (relayboard_read HZ k g count jiffies writable))"
proof -
  let ?m = "ucast (simple_strtoul (payload @ slack) :: 'w word) :: byte"
  let ?bus = "(usb k)\<lparr>sent := sent (usb k) @ map (bulk_out dev) (take (Suc n) (commit_payloads ?m))\<rparr>"
  have "relayboard_send_status (usb k) dev ?m = (?bus, dev, - EFAULT)"
    using assms(5-7) by (rule send_status_refused)
  moreover have "(devs k)(p \<mapsto> dev) = devs k"
    using assms(3) by (rule map_upd_triv)
  ultimately have w: "relayboard_write k f payload slack True True = Some (k\<lparr>usb := ?bus\<rparr>, - EFAULT)"
    using assms(1-4) by (simp add: write_sends EFAULT_def)
  have "map_option snd (relayboard_read HZ (k\<lparr>usb := ?bus\<rparr>) g count jiffies writable) =
        map_option snd (relayboard_read HZ k g count jiffies writable)"
    for g count jiffies writable
    by (rule read_depends_on) simp_all
  with w assms(3) show ?thesis
    by simp
qed

theorem failed_commit_keeps_shadow_state_witness:
  "(case relayboard_write (opened (\<lambda>n. if n < 4 then (0, 11) else (0, 8)) 9 :: 32 kernel)
           1 ''5'' [] True True of
      None \<Rightarrow> False
    | Some (k', r) \<Rightarrow>
        r = - 14 \<and> length (sent (usb k')) = 5 \<and>
        map_option snd (relayboard_read 1000 k' 1 16 5000 16) = Some (2, [CHR ''9'', CHR 0x0A]))"
proof -
  let ?k = "opened (\<lambda>n. if n < 4 then (0, 11) else (0, 8)) 9 :: 32 kernel"
  let ?dev = "\<lparr>udev = 3, interface = Some 7, kref = 2, relay_states = 9\<rparr>"
  let ?k' = "?k\<lparr>usb := (usb ?k)\<lparr>sent := sent (usb ?k) @ map (bulk_out ?dev)
              (take (Suc 4) (commit_payloads (ucast (simple_strtoul (''5'' @ []) :: 32 word))))\<rparr>\<rparr>"
  have w: "relayboard_write ?k 1 ''5'' [] True True = Some (?k', - EFAULT)"
    using failed_commit_keeps_shadow_state [of ?k 1 "\<lparr>device = Some 1, last_call = 0\<rparr>" 1
        ?dev "''5''" 4 "[]" 1000]
    by (simp add: opened_def accepts_def)
  have n: "length (sent (usb ?k')) = 5"
    by (simp add: opened_def length_commit_payloads)
  have "mask_text 9 = [CHR ''9'', CHR 0x0A]"
    by (simp add: mask_text_def decimal.simps)
  then have r: "map_option snd (relayboard_read 1000 ?k' 1 16 5000 16) = Some (2, [CHR ''9'', CHR 0x0A])"
    using read_passes [of 16 ?k' 1 "\<lparr>device = Some 1, last_call = 0\<rparr>" 5000 1000 1 ?dev 16]
    by (simp add: opened_def)
  show ?thesis
    unfolding w using n r by (simp add: EFAULT_def)
qed

lemma opened_twice_reachable:
  "run HZ [Probe 7 3 board True 0 0, Open 0 1 True, Open 0 2 True] (boot r) = Some (opened_twice r 0)"
  by (simp add: relayboard_probe_def relayboard_open_def kref_get_def boot_def board_def
      opened_twice_def)

lemma read_eval:
  "relayboard_read HZ k f count jiffies writable =
     (if count < 4 then Some (k, 0, [])
      else case files k f of
        None \<Rightarrow> None
      | Some infos \<Rightarrow>
          if jiffies - last_call infos < of_nat (HZ div 2) then Some (k, 0, [])
          else case device infos of
            None \<Rightarrow> None
          | Some p \<Rightarrow>
              (case devs k p of
                 None \<Rightarrow> None
               | Some dev \<Rightarrow>
                   Some (k\<lparr>files := (files k)(f \<mapsto> infos\<lparr>last_call := jiffies\<rparr>)\<rparr>,
                         int (min (length (mask_text (relay_states dev))) writable),
                         take writable (mask_text (relay_states dev)))))"
  by (simp add: relayboard_read_def Let_def RELAY_READ_FREQ_MAX_def ULONG_MAX_def snprintf_byte min_def
      split: option.split)

lemma read_depends_on_file:
  assumes a: "files k' g = files k g" and b: "devs k' = devs k"
  shows "map_option snd (relayboard_read HZ k' g count jiffies writable) =
         map_option snd (relayboard_read HZ k g count jiffies writable)"
proof (cases "files k g")
  case None
  then show ?thesis using a by (simp add: read_eval)
next
  case (Some infos)
  show ?thesis
  proof (cases "device infos")
    case None
    then show ?thesis using a Some by (simp add: read_eval)
  next
    case p: (Some p)
    show ?thesis
    proof (cases "devs k p")
      case None
      then show ?thesis using a b Some p by (simp add: read_eval)
    next
      case d: (Some dev)
      then show ?thesis using a b Some p by (simp add: read_eval)
    qed
  qed
qed

lemma read_Some_D:
  assumes "relayboard_read HZ k f count jiffies writable = Some (k1, n, d)"
  shows "(k1 = k \<and> n = 0 \<and> d = [] \<and>
            (count < 4 \<or> (\<exists>infos. files k f = Some infos \<and> jiffies - last_call infos < of_nat (HZ div 2))))
         \<or> (\<exists>infos p dev. 4 \<le> count \<and> files k f = Some infos
               \<and> \<not> jiffies - last_call infos < of_nat (HZ div 2)
               \<and> device infos = Some p \<and> devs k p = Some dev
               \<and> k1 = k\<lparr>files := (files k)(f \<mapsto> infos\<lparr>last_call := jiffies\<rparr>)\<rparr>
               \<and> n = int (min (length (mask_text (relay_states dev))) writable)
               \<and> d = take writable (mask_text (relay_states dev)))"
proof (cases "count < 4")
  case True
  with assms show ?thesis
    by (simp add: read_eval)
next
  case c: False
  show ?thesis
  proof (cases "files k f")
    case None
    with assms c show ?thesis
      by (simp add: read_eval)
  next
    case (Some infos)
    show ?thesis
    proof (cases "jiffies - last_call infos < of_nat (HZ div 2)")
      case True
      with assms c Some show ?thesis
        by (simp add: read_eval)
    next
      case t: False
      show ?thesis
      proof (cases "device infos")
        case None
        with assms c Some t show ?thesis
          by (simp add: read_eval)
      next
        case p: (Some p)
        show ?thesis
        proof (cases "devs k p")
          case None
          with assms c Some t p show ?thesis
            by (simp add: read_eval)
        next
          case (Some dev)
          with assms c \<open>files k f = Some infos\<close> t p have
            "k1 = k\<lparr>files := (files k)(f \<mapsto> infos\<lparr>last_call := jiffies\<rparr>)\<rparr>"
            "n = int (min (length (mask_text (relay_states dev))) writable)"
            "d = take writable (mask_text (relay_states dev))"
            by (simp_all add: read_eval)
          with c \<open>files k f = Some infos\<close> t p Some show ?thesis
            by (intro disjI2 exI [of _ infos] exI [of _ p] exI [of _ dev]) simp
        qed
      qed
    qed
  qed
qed



lemma read_Some_cases:
  assumes "relayboard_read HZ k f count jiffies writable = Some (k1, n, d)"
  obtains (refused) "k1 = k" "n = 0" "d = []"
      "count < 4 \<or> (\<exists>infos. files k f = Some infos \<and> jiffies - last_call infos < of_nat (HZ div 2))"
  | (passes) infos p dev where "4 \<le> count" "files k f = Some infos"
      "\<not> jiffies - last_call infos < of_nat (HZ div 2)" "device infos = Some p" "devs k p = Some dev"
      "k1 = k\<lparr>files := (files k)(f \<mapsto> infos\<lparr>last_call := jiffies\<rparr>)\<rparr>"
      "n = int (min (length (mask_text (relay_states dev))) writable)"
      "d = take writable (mask_text (relay_states dev))"
  using read_Some_D [OF assms] by blast

lemma mask_text_0: "mask_text 0 = [CHR ''0'', CHR 0x0A]"
  by (simp add: mask_text_def decimal.simps)

subsection \<open>The read throttle\<close>

text \<open>
  The throttle as the code has it. A handle has no "never" value: \<open>relayboard_open\<close>
  leaves \<open>last_call\<close> at 0, a tick count like any other. Through an open file on an
  allocated device, with a buffer of at least 4 bytes, a read at tick \<open>jiffies\<close> returns
  no data when \<open>jiffies - last_call\<close>, taken modulo the width of \<open>unsigned long\<close>, is
  below \<open>HZ / 2\<close> ticks (500 ms); otherwise it returns the shadow mask as text and sets
  \<open>last_call\<close> to \<open>jiffies\<close>. After a read that delivered data at tick \<open>jiffies\<close>, a
  read at tick \<open>later\<close> yields no data when \<open>later - jiffies\<close> is below \<open>HZ / 2\<close>, and
  the mask otherwise.
\<close>

lemma read_throttle:
  fixes k :: "('w::len) kernel"
  assumes "files k f = Some infos" and "device infos = Some p" and "devs k p = Some dev"
    and "4 \<le> count" and "4 \<le> writable"
  shows "relayboard_read HZ k f count jiffies writable =
           (if jiffies - last_call infos < of_nat (HZ div 2) then Some (k, 0, [])
            else Some (k\<lparr>files := (files k)(f \<mapsto> infos\<lparr>last_call := jiffies\<rparr>)\<rparr>,
                       int (length (mask_text (relay_states dev))),
                       mask_text (relay_states dev)))
         \<and> (\<forall>k1 n d later.
               relayboard_read HZ k f count jiffies writable = Some (k1, n, d) \<and> d \<noteq> [] \<longrightarrow>
               relayboard_read HZ k1 f count later writable =
                 (if later - jiffies < of_nat (HZ div 2) then Some (k1, 0, [])
                  else Some (k1\<lparr>files := (files k1)(f \<mapsto> infos\<lparr>last_call := later\<rparr>)\<rparr>,
                             int (length (mask_text (relay_states dev))),
                             mask_text (relay_states dev))))
         \<and> (\<forall>k0 minor alloc_ok.
               relayboard_open k0 minor f alloc_ok = Some (k, 0) \<longrightarrow> last_call infos = 0)"
proof -
  have len: "min (length (mask_text (relay_states dev))) writable = length (mask_text (relay_states dev))"
    and tk: "take writable (mask_text (relay_states dev)) = mask_text (relay_states dev)"
    using length_mask_text(1) [of "relay_states dev"] assms(5) by simp_all
  have one: "relayboard_read HZ k' f count t writable =
           (if t - last_call i < of_nat (HZ div 2) then Some (k', 0, [])
            else Some (k'\<lparr>files := (files k')(f \<mapsto> i\<lparr>last_call := t\<rparr>)\<rparr>,
                       int (length (mask_text (relay_states dev))),
                       mask_text (relay_states dev)))"
    if "files k' f = Some i" "device i = Some p" "devs k' p = Some dev" for k' :: "'w kernel" and i t
  proof (cases "t - last_call i < of_nat (HZ div 2)")
    case True
    with that show ?thesis by (simp add: read_too_early)
  next
    case False
    with that assms(4) show ?thesis by (simp add: read_passes len tk)
  qed
  have first: "relayboard_read HZ k f count jiffies writable =
           (if jiffies - last_call infos < of_nat (HZ div 2) then Some (k, 0, [])
            else Some (k\<lparr>files := (files k)(f \<mapsto> infos\<lparr>last_call := jiffies\<rparr>)\<rparr>,
                       int (length (mask_text (relay_states dev))),
                       mask_text (relay_states dev)))"
    using assms(1-3) by (rule one)
  have second: "relayboard_read HZ k1 f count later writable =
                 (if later - jiffies < of_nat (HZ div 2) then Some (k1, 0, [])
                  else Some (k1\<lparr>files := (files k1)(f \<mapsto> infos\<lparr>last_call := later\<rparr>)\<rparr>,
                             int (length (mask_text (relay_states dev))),
                             mask_text (relay_states dev)))"
    if r: "relayboard_read HZ k f count jiffies writable = Some (k1, n, d)" and d: "d \<noteq> []"
    for k1 n d later
  proof -
    from r d first have k1: "k1 = k\<lparr>files := (files k)(f \<mapsto> infos\<lparr>last_call := jiffies\<rparr>)\<rparr>"
      by (simp split: if_splits)
    have "relayboard_read HZ k1 f count later writable =
           (if later - last_call (infos\<lparr>last_call := jiffies\<rparr>) < of_nat (HZ div 2) then Some (k1, 0, [])
            else Some (k1\<lparr>files := (files k1)(f \<mapsto> infos\<lparr>last_call := jiffies\<rparr>\<lparr>last_call := later\<rparr>)\<rparr>,
                       int (length (mask_text (relay_states dev))),
                       mask_text (relay_states dev)))"
      by (rule one) (simp_all add: k1 assms)
    then show ?thesis by simp
  qed
  have third: "last_call infos = 0"
    if "relayboard_open k0 minor f alloc_ok = Some (k, 0)" for k0 minor alloc_ok
  proof -
    from that have "\<exists>q. files k f = Some \<lparr>device = Some q, last_call = 0\<rparr>"
      by (auto simp: relayboard_open_def kref_get_def ENODEV_def ENOMEM_def
          split: option.splits if_splits)
    with assms(1) show ?thesis by auto
  qed
  from first second third show ?thesis by blast
qed

lemma read_throttle_witness:
  "relayboard_read 1000 (opened (\<lambda>n. (0, 11)) 0 :: 32 kernel) 1 16 5000 16 =
     Some ((opened (\<lambda>n. (0, 11)) 0)\<lparr>files := [1 \<mapsto> \<lparr>device = Some 1, last_call = 5000\<rparr>]\<rparr>,
           2, [CHR ''0'', CHR 0x0A])
   \<and> relayboard_read 1000
        ((opened (\<lambda>n. (0, 11)) 0 :: 32 kernel)\<lparr>files := [1 \<mapsto> \<lparr>device = Some 1, last_call = 5000\<rparr>]\<rparr>)
        1 16 5499 16 =
     Some ((opened (\<lambda>n. (0, 11)) 0)\<lparr>files := [1 \<mapsto> \<lparr>device = Some 1, last_call = 5000\<rparr>]\<rparr>, 0, [])
   \<and> relayboard_read 1000
        ((opened (\<lambda>n. (0, 11)) 0 :: 32 kernel)\<lparr>files := [1 \<mapsto> \<lparr>device = Some 1, last_call = 5000\<rparr>]\<rparr>)
        1 16 5500 16 =
     Some ((opened (\<lambda>n. (0, 11)) 0)\<lparr>files := [1 \<mapsto> \<lparr>device = Some 1, last_call = 5500\<rparr>]\<rparr>,
           2, [CHR ''0'', CHR 0x0A])"
proof -
  let ?k = "opened (\<lambda>n. (0, 11)) 0 :: 32 kernel"
  let ?i = "\<lparr>device = Some 1, last_call = 0 :: 32 word\<rparr>"
  let ?dev = "\<lparr>udev = 3, interface = Some 7, kref = 2, relay_states = 0\<rparr>"
  let ?k1 = "?k\<lparr>files := [1 \<mapsto> \<lparr>device = Some 1, last_call = 5000\<rparr>]\<rparr>"
  have hyps: "files ?k 1 = Some ?i" "device ?i = Some 1" "devs ?k 1 = Some ?dev"
    by (simp_all add: opened_def)
  note th = read_throttle [OF hyps, of 16 16 1000 5000]
  from th have first: "relayboard_read 1000 ?k 1 16 5000 16 = Some (?k1, 2, [CHR ''0'', CHR 0x0A])"
    by (simp add: mask_text_0 opened_def)
  from th first have "relayboard_read 1000 ?k1 1 16 later 16 =
      (if later - 5000 < of_nat (1000 div 2) then Some (?k1, 0, [])
       else Some (?k1\<lparr>files := (files ?k1)(1 \<mapsto> ?i\<lparr>last_call := later\<rparr>)\<rparr>,
                  int (length (mask_text (relay_states ?dev))), mask_text (relay_states ?dev)))" for later
    by simp
  from this [of 5499] this [of 5500] first show ?thesis
    by (simp add: mask_text_0 opened_def)
qed

text \<open>
  C6, the first read after open. The comment in \<open>relayboard_read\<close> describes the
  throttle as counting from the last read call of the handle, and a handle that has just
  been opened has had none. The code has no such case: \<open>relayboard_open\<close> leaves
  \<open>last_call\<close> at 0, the value \<open>kzalloc\<close> gave it, and \<open>relayboard_read\<close> takes it for
  the tick of a read. So the first read through a file that was opened successfully,
  made while the tick counter is below \<open>HZ / 2\<close> (the half second after the counter
  wraps), is refused: it returns no data and changes nothing, whatever the buffer.
\<close>

theorem first_read_after_open_throttled:
  fixes k0 :: "('w::len) kernel"
  assumes "relayboard_open k0 minor f True = Some (k, 0)"
    and "jiffies < of_nat (HZ div 2)"
  shows "relayboard_read HZ k f count jiffies writable = Some (k, 0, [])"
proof -
  from assms(1) obtain q where "files k f = Some \<lparr>device = Some q, last_call = 0\<rparr>"
    by (auto simp: relayboard_open_def kref_get_def ENODEV_def ENOMEM_def
        split: option.splits if_splits)
  with assms(2) show ?thesis
    by (simp add: read_eval)
qed

theorem first_read_after_open_throttled_witness:
  "run 1000 [Probe 7 3 board True 0 0] (boot (\<lambda>n. (0, 11)))
     = Some (\<lparr>devs = [1 \<mapsto> \<lparr>udev = 3, interface = Some 7, kref = 1, relay_states = 0\<rparr>],
              files = Map.empty, intfdata = [7 \<mapsto> 1], minors = [0 \<mapsto> 7],
              usb = \<lparr>sent = [], reply = (\<lambda>n. (0, 11))\<rparr>, brk = 2\<rparr> :: 32 kernel)
   \<and> relayboard_open
        (\<lparr>devs = [1 \<mapsto> \<lparr>udev = 3, interface = Some 7, kref = 1, relay_states = 0\<rparr>],
          files = Map.empty, intfdata = [7 \<mapsto> 1], minors = [0 \<mapsto> 7],
          usb = \<lparr>sent = [], reply = (\<lambda>n. (0, 11))\<rparr>, brk = 2\<rparr> :: 32 kernel) 0 1 True
     = Some (opened (\<lambda>n. (0, 11)) 0, 0)
   \<and> relayboard_read 1000 (opened (\<lambda>n. (0, 11)) 0 :: 32 kernel) 1 16 10 16
     = Some (opened (\<lambda>n. (0, 11)) 0, 0, [])
   \<and> relayboard_read 1000 (opened (\<lambda>n. (0, 11)) 0 :: 32 kernel) 1 16 499 16
     = Some (opened (\<lambda>n. (0, 11)) 0, 0, [])"
proof -
  let ?k0 = "\<lparr>devs = [1 \<mapsto> \<lparr>udev = 3, interface = Some 7, kref = 1, relay_states = 0\<rparr>],
          files = Map.empty, intfdata = [7 \<mapsto> 1], minors = [0 \<mapsto> 7],
          usb = \<lparr>sent = [], reply = (\<lambda>n. (0, 11))\<rparr>, brk = 2\<rparr> :: 32 kernel"
  have p: "run 1000 [Probe 7 3 board True 0 0] (boot (\<lambda>n. (0, 11))) = Some ?k0"
    by (simp add: relayboard_probe_def boot_def board_def)
  have o: "relayboard_open ?k0 0 1 True = Some (opened (\<lambda>n. (0, 11)) 0, 0)"
    by (simp add: relayboard_open_def kref_get_def opened_def)
  have "(10 :: 32 word) < of_nat (1000 div 2)" and "(499 :: 32 word) < of_nat (1000 div 2)"
    by simp_all
  from first_read_after_open_throttled [OF o this(1), of 16 16]
    first_read_after_open_throttled [OF o this(2), of 16 16] p o
  show ?thesis
    by simp
qed

text \<open>
  C7. Every open file has its own \<open>last_call\<close>: a read through file \<open>f\<close> leaves the
  private data of any other file \<open>g\<close> as it was, and every read through \<open>g\<close> afterwards
  returns what it would have returned without the read through \<open>f\<close>.
\<close>

theorem handles_have_own_timers:
  assumes "f \<noteq> g" and "relayboard_read HZ k f count jiffies writable = Some (k1, n, d)"
  shows "files k1 g = files k g
         \<and> (\<forall>count' jiffies' writable'.
               map_option snd (relayboard_read HZ k1 g count' jiffies' writable') =
               map_option snd (relayboard_read HZ k g count' jiffies' writable'))"
proof -
  from assms(2) have "files k1 g = files k g \<and> devs k1 = devs k"
  proof (cases rule: read_Some_cases)
    case refused
    then show ?thesis by simp
  next
    case (passes infos p dev)
    with assms(1) show ?thesis by simp
  qed
  then show ?thesis
    by (auto intro: read_depends_on_file)
qed

theorem handles_have_own_timers_witness:
  "(case relayboard_read 1000 (opened_twice (\<lambda>n. (0, 11)) 0 :: 32 kernel) 1 16 5000 16 of
      None \<Rightarrow> False
    | Some (k1, n, d) \<Rightarrow>
        d = [CHR ''0'', CHR 0x0A]
        \<and> files k1 2 = Some \<lparr>device = Some 1, last_call = 0\<rparr>
        \<and> map_option snd (relayboard_read 1000 k1 2 16 5001 16) = Some (2, [CHR ''0'', CHR 0x0A])
        \<and> map_option snd (relayboard_read 1000 k1 1 16 5001 16) = Some (0, []))"
proof -
  let ?k = "opened_twice (\<lambda>n. (0, 11)) 0 :: 32 kernel"
  let ?k1 = "?k\<lparr>files := (files ?k)(1 \<mapsto> \<lparr>device = Some 1, last_call = 5000\<rparr>)\<rparr>"
  have r: "relayboard_read 1000 ?k 1 16 5000 16 = Some (?k1, 2, [CHR ''0'', CHR 0x0A])"
    by (simp add: read_eval opened_twice_def mask_text_0)
  have "(1::nat) \<noteq> 2" by simp
  from handles_have_own_timers [OF this r]
  have "files ?k1 2 = files ?k 2"
    and "map_option snd (relayboard_read 1000 ?k1 2 16 5001 16) =
         map_option snd (relayboard_read 1000 ?k 2 16 5001 16)"
    by blast+
  moreover have "map_option snd (relayboard_read 1000 ?k 2 16 5001 16) = Some (2, [CHR ''0'', CHR 0x0A])"
    by (simp add: read_eval opened_twice_def mask_text_0)
  moreover have "map_option snd (relayboard_read 1000 ?k1 1 16 5001 16) = Some (0, [])"
    by (simp add: read_eval opened_twice_def)
  moreover have "files ?k 2 = Some \<lparr>device = Some 1, last_call = 0\<rparr>"
    by (simp add: opened_twice_def)
  ultimately have "[CHR ''0'', CHR 0x0A] = [CHR ''0'', CHR 0x0A]
        \<and> files ?k1 2 = Some \<lparr>device = Some 1, last_call = 0\<rparr>
        \<and> map_option snd (relayboard_read 1000 ?k1 2 16 5001 16) = Some (2, [CHR ''0'', CHR 0x0A])
        \<and> map_option snd (relayboard_read 1000 ?k1 1 16 5001 16) = Some (0, [])"
    by simp
  then show ?thesis
    by (simp only: r option.case prod.case)
qed

text \<open>
  C10, as the code has it. A read that returns zero bytes because the buffer is shorter
  than 4 bytes or because the throttle rejects it changes nothing, so it leaves
  \<open>last_call\<close> alone; and a read that changes \<open>last_call\<close> has passed both checks.
  Through a file on an allocated device, a read is refused with the state unchanged when
  the count is below 4 or the throttle rejects it, and otherwise it always sets
  \<open>last_call\<close> to its own tick and delivers the first \<open>writable\<close> bytes of the mask
  text: some data as soon as one byte of the buffer is writable, and none (a result of
  zero bytes, with \<open>last_call\<close> moved all the same) when \<open>copy_to_user\<close> can write
  nothing.
\<close>

theorem zero_byte_reads_keep_timer:
  fixes k :: "('w::len) kernel"
  assumes "files k f = Some infos"
  shows "(\<forall>k1 n d.
            relayboard_read HZ k f count jiffies writable = Some (k1, n, d) \<longrightarrow>
            ((count < 4 \<or> jiffies - last_call infos < of_nat (HZ div 2)) \<longrightarrow>
               k1 = k \<and> n = 0 \<and> d = [])
            \<and> (files k1 f \<noteq> files k f \<longrightarrow>
                 4 \<le> count \<and> \<not> jiffies - last_call infos < of_nat (HZ div 2)
                 \<and> files k1 f = Some (infos\<lparr>last_call := jiffies\<rparr>)
                 \<and> (0 < writable \<longrightarrow> 0 < n \<and> d \<noteq> [])))
         \<and> (\<forall>p dev.
               device infos = Some p \<and> devs k p = Some dev \<longrightarrow>
               relayboard_read HZ k f count jiffies writable =
                 (if count < 4 \<or> jiffies - last_call infos < of_nat (HZ div 2)
                  then Some (k, 0, [])
                  else Some (k\<lparr>files := (files k)(f \<mapsto> infos\<lparr>last_call := jiffies\<rparr>)\<rparr>,
                             int (min (length (mask_text (relay_states dev))) writable),
                             take writable (mask_text (relay_states dev))))
               \<and> (take writable (mask_text (relay_states dev)) = [] \<longleftrightarrow> writable = 0))"
proof -
  have old: "((count < 4 \<or> jiffies - last_call infos < of_nat (HZ div 2)) \<longrightarrow>
               k1 = k \<and> n = 0 \<and> d = [])
            \<and> (files k1 f \<noteq> files k f \<longrightarrow>
                 4 \<le> count \<and> \<not> jiffies - last_call infos < of_nat (HZ div 2)
                 \<and> files k1 f = Some (infos\<lparr>last_call := jiffies\<rparr>)
                 \<and> (0 < writable \<longrightarrow> 0 < n \<and> d \<noteq> []))"
    if r: "relayboard_read HZ k f count jiffies writable = Some (k1, n, d)" for k1 n d
    using r
  proof (cases rule: read_Some_cases)
    case refused
    then show ?thesis by simp
  next
    case (passes i p dev)
    with assms length_mask_text(2) [of "relay_states dev"] show ?thesis
      by auto
  qed
  have new: "relayboard_read HZ k f count jiffies writable =
                 (if count < 4 \<or> jiffies - last_call infos < of_nat (HZ div 2)
                  then Some (k, 0, [])
                  else Some (k\<lparr>files := (files k)(f \<mapsto> infos\<lparr>last_call := jiffies\<rparr>)\<rparr>,
                             int (min (length (mask_text (relay_states dev))) writable),
                             take writable (mask_text (relay_states dev))))
               \<and> (take writable (mask_text (relay_states dev)) = [] \<longleftrightarrow> writable = 0)"
    if "device infos = Some p" "devs k p = Some dev" for p dev
    using that assms length_mask_text(2) [of "relay_states dev"]
    by (auto simp: read_eval)
  from old new show ?thesis by blast
qed

theorem zero_byte_reads_keep_timer_witness:
  "relayboard_read 1000 (opened (\<lambda>n. (0, 11)) 0 :: 32 kernel) 1 3 5000 16 =
     Some (opened (\<lambda>n. (0, 11)) 0, 0, [])
   \<and> relayboard_read 1000 (opened (\<lambda>n. (0, 11)) 0 :: 32 kernel) 1 16 499 16 =
     Some (opened (\<lambda>n. (0, 11)) 0, 0, [])
   \<and> relayboard_read 1000 (opened (\<lambda>n. (0, 11)) 0 :: 32 kernel) 1 16 5000 16 =
     Some ((opened (\<lambda>n. (0, 11)) 0)\<lparr>files := [1 \<mapsto> \<lparr>device = Some 1, last_call = 5000\<rparr>]\<rparr>,
           2, [CHR ''0'', CHR 0x0A])
   \<and> relayboard_read 1000 (opened (\<lambda>n. (0, 11)) 0 :: 32 kernel) 1 16 5000 0 =
     Some ((opened (\<lambda>n. (0, 11)) 0)\<lparr>files := [1 \<mapsto> \<lparr>device = Some 1, last_call = 5000\<rparr>]\<rparr>,
           0, [])"
proof -
  let ?k = "opened (\<lambda>n. (0, 11)) 0 :: 32 kernel"
  let ?i = "\<lparr>device = Some 1, last_call = 0 :: 32 word\<rparr>"
  let ?dev = "\<lparr>udev = 3, interface = Some 7, kref = 2, relay_states = 0\<rparr>"
  have f: "files ?k 1 = Some ?i"
    by (simp add: opened_def)
  have hd: "device ?i = Some 1 \<and> devs ?k 1 = Some ?dev"
    by (simp add: opened_def)
  note th = zero_byte_reads_keep_timer [OF f, THEN conjunct2, rule_format, OF hd, THEN conjunct1]
  from th [of 1000 3 5000 16] th [of 1000 16 499 16] th [of 1000 16 5000 16] th [of 1000 16 5000 0]
  show ?thesis
    by (simp add: mask_text_0 opened_def)
qed

text \<open>A read that passes both checks into a buffer that faults returns zero bytes and
  still moves \<open>last_call\<close>: the read one tick later is throttled.\<close>

theorem faulting_read_counterexample:
  "relayboard_read 1000 (opened (\<lambda>n. (0, 11)) 0 :: 32 kernel) 1 16 5000 0 =
     Some ((opened (\<lambda>n. (0, 11)) 0)\<lparr>files := [1 \<mapsto> \<lparr>device = Some 1, last_call = 5000\<rparr>]\<rparr>, 0, [])
   \<and> relayboard_read 1000
        ((opened (\<lambda>n. (0, 11)) 0 :: 32 kernel)\<lparr>files := [1 \<mapsto> \<lparr>device = Some 1, last_call = 5000\<rparr>]\<rparr>)
        1 16 5001 16 =
     Some ((opened (\<lambda>n. (0, 11)) 0)\<lparr>files := [1 \<mapsto> \<lparr>device = Some 1, last_call = 5000\<rparr>]\<rparr>, 0, [])"
  by (simp add: read_eval opened_def)

subsection \<open>Parsing the payload of a write\<close>

lemma ucast_of_nat_byte:
  "8 \<le> LENGTH('w::len) \<Longrightarrow> (ucast (of_nat n :: 'w word) :: byte) = of_nat n"
  by (rule bit_word_eqI) (auto simp: bit_simps)

lemma of_nat_mod_256: "(of_nat (n mod 256) :: byte) = of_nat n"
  by (simp add: word_of_nat_eq_iff take_bit_eq_mod)

lemma unat_of_nat_byte: "unat (of_nat n :: byte) = n mod 256"
  by (simp add: unat_of_nat)

lemma strtoul_digits_slack:
  "slack = [] \<or> \<not> isdigit (hd slack) \<Longrightarrow>
   strtoul_digits acc (ds @ slack) = strtoul_digits acc ds"
proof (induction ds arbitrary: acc)
  case Nil
  then show ?case by (cases slack) simp_all
next
  case (Cons c ds)
  then show ?case by simp
qed

lemma strtoul_digits_of_nat:
  "\<forall>c \<in> set ds. isdigit c \<Longrightarrow>
   strtoul_digits (of_nat n) ds = of_nat (foldl (\<lambda>n c. 10 * n + (of_char c - 48)) n ds)"
proof (induction ds arbitrary: n)
  case Nil
  show ?case by simp
next
  case (Cons c ds)
  have "(of_nat n * 10 + of_nat (of_char c - 48) :: 'a word) = of_nat (10 * n + (of_char c - 48))"
    by simp
  with Cons show ?case by (simp del: of_nat_add of_nat_mult)
qed

lemma simple_strtoul_digits:
  assumes "\<forall>c \<in> set ds. isdigit c" and "slack = [] \<or> \<not> isdigit (hd slack)"
  shows "simple_strtoul (ds @ slack) = of_nat (dec_value ds)"
proof -
  have "strtoul_digits (of_nat 0) (ds @ slack) = strtoul_digits (of_nat 0) ds"
    using assms(2) by (rule strtoul_digits_slack)
  also have "\<dots> = of_nat (foldl (\<lambda>n c. 10 * n + (of_char c - 48)) 0 ds)"
    using assms(1) by (rule strtoul_digits_of_nat)
  finally show ?thesis
    by (simp add: simple_strtoul_def dec_value_def)
qed

lemma user_data_digits:
  assumes "8 \<le> LENGTH('w::len)"
    and "\<forall>c \<in> set ds. isdigit c" and "slack = [] \<or> \<not> isdigit (hd slack)"
  shows "(ucast (simple_strtoul (ds @ slack) :: 'w word) :: byte) = of_nat (dec_value ds mod 256)"
  using assms by (simp add: simple_strtoul_digits ucast_of_nat_byte of_nat_mod_256)


lemma write_Some_cases:
  fixes k :: "('w::len) kernel"
  assumes "relayboard_write k f payload slack alloc_ok copy_ok = Some (k1, r)"
  obtains (failed) "r < 0" "devs k1 = devs k" "files k1 = files k" "brk k1 = brk k"
      "intfdata k1 = intfdata k" "minors k1 = minors k"
  | (committed) infos p dev where "files k f = Some infos" "device infos = Some p"
      "devs k p = Some dev" "r = int (length payload)"
      "devs k1 = (devs k)(p \<mapsto> dev\<lparr>relay_states := ucast (simple_strtoul (payload @ slack) :: 'w word)\<rparr>)"
      "files k1 = files k" "brk k1 = brk k" "intfdata k1 = intfdata k" "minors k1 = minors k"
proof (cases "files k f")
  case None
  with assms show ?thesis
    by (simp add: relayboard_write_def)
next
  case (Some infos)
  show ?thesis
  proof (cases "alloc_ok \<and> copy_ok \<and> payload \<noteq> []")
    case False
    with assms Some failed show ?thesis
      by (auto simp: relayboard_write_def ENOMEM_def EFAULT_def split: if_splits)
  next
    case ok: True
    show ?thesis
    proof (cases "device infos")
      case None
      with assms Some ok show ?thesis
        by (simp add: relayboard_write_def)
    next
      case p: (Some p)
      show ?thesis
      proof (cases "devs k p")
        case None
        with assms Some ok p show ?thesis
          by (simp add: relayboard_write_def)
      next
        case dev: (Some dev)
        let ?m = "ucast (simple_strtoul (payload @ slack) :: 'w word) :: byte"
        obtain b dev' r' where s: "relayboard_send_status (usb k) dev ?m = (b, dev', r')"
          by (cases "relayboard_send_status (usb k) dev ?m") auto
        from assms Some ok p dev s
        have k1: "k1 = k\<lparr>usb := b, devs := (devs k)(p \<mapsto> dev')\<rparr>"
          and r: "r = (if r' \<noteq> 0 then - EFAULT else int (length payload))"
          by (simp_all add: write_sends)
        from send_status_result [OF s] show ?thesis
        proof
          assume "r' = 0 \<and> dev' = dev\<lparr>relay_states := ?m\<rparr>"
          with k1 r Some p dev show ?thesis
            by (intro committed [of infos p dev]) simp_all
        next
          assume "r' = - EFAULT \<and> dev' = dev"
          with k1 r dev show ?thesis
            by (intro failed) (simp_all add: EFAULT_def map_upd_triv)
        qed
      qed
    qed
  qed
qed

text \<open>
  C8, what the parser reads. \<open>relayboard_write\<close> copies the \<open>count\<close> bytes of the
  payload into a buffer of exactly \<open>count\<close> bytes and hands it to \<open>simple_strtoul\<close>
  without a terminator, so the number parsed is that of the payload's digits together
  with the digits that follow the buffer in memory. On a platform whose
  \<open>unsigned long\<close> has at least 8 bits: for a payload of ASCII decimal digits, followed
  in memory by the digits \<open>digits\<close> and then by nothing or by a byte that is no digit,
  the write passes the number that \<open>payload @ digits\<close> denotes, reduced modulo 256, to
  \<open>relayboard_send_status\<close>, and returns the length of the payload when the commit
  succeeds. After that, a read through any file on the device that is not throttled
  returns the decimal digits of that value and a newline. With no digit behind the
  buffer this is the value of the payload modulo 256: \<open>300\<close> commits 44 and reads back
  \<open>44\<close> and a newline. With \<open>7x\<close> behind the buffer, the payload \<open>12\<close> commits 127.
\<close>

theorem write_parses_past_the_payload:
  fixes k :: "('w::len) kernel"
  assumes "8 \<le> LENGTH('w)"
    and "payload \<noteq> []" and "\<forall>c \<in> set payload. isdigit c"
    and "\<forall>c \<in> set digits. isdigit c" and "rest = [] \<or> \<not> isdigit (hd rest)"
    and "files k f = Some infos" and "device infos = Some p" and "devs k p = Some dev"
  shows "relayboard_write k f payload (digits @ rest) True True =
           (case relayboard_send_status (usb k) dev (of_nat (dec_value (payload @ digits) mod 256)) of
              (bus', dev', r) \<Rightarrow>
                Some (k\<lparr>usb := bus', devs := (devs k)(p \<mapsto> dev')\<rparr>,
                      if r \<noteq> 0 then - EFAULT else int (length payload)))
         \<and> (\<forall>k1 r g i count jiffies writable.
               relayboard_write k f payload (digits @ rest) True True = Some (k1, r) \<and> 0 \<le> r
               \<and> files k1 g = Some i \<and> device i = Some p
               \<and> 4 \<le> count \<and> 4 \<le> writable \<and> \<not> jiffies - last_call i < of_nat (HZ div 2) \<longrightarrow>
               map_option snd (relayboard_read HZ k1 g count jiffies writable) =
                 Some (int (length (decimal (dec_value (payload @ digits) mod 256) @ [CHR 0x0A])),
                       decimal (dec_value (payload @ digits) mod 256) @ [CHR 0x0A]))"
proof -
  let ?slack = "digits @ rest"
  let ?v = "dec_value (payload @ digits) mod 256"
  let ?m = "of_nat ?v :: byte"
  let ?txt = "decimal ?v @ [CHR 0x0A]"
  have "\<forall>c \<in> set (payload @ digits). isdigit c"
    using assms(3,4) by auto
  then have "(ucast (simple_strtoul ((payload @ digits) @ rest) :: 'w word) :: byte) = ?m"
    using assms(1,5) by (intro user_data_digits)
  then have m: "(ucast (simple_strtoul (payload @ ?slack) :: 'w word) :: byte) = ?m"
    by simp
  have tx: "mask_text ?m = ?txt"
    by (simp add: mask_text_def unat_of_nat_byte)
  have first: "relayboard_write k f payload ?slack True True =
           (case relayboard_send_status (usb k) dev ?m of
              (bus', dev', r) \<Rightarrow>
                Some (k\<lparr>usb := bus', devs := (devs k)(p \<mapsto> dev')\<rparr>,
                      if r \<noteq> 0 then - EFAULT else int (length payload)))"
    using write_sends [OF assms(6,7,8,2), of ?slack] by (simp only: m)
  have second: "map_option snd (relayboard_read HZ k1 g count jiffies writable) =
      Some (int (length ?txt), ?txt)"
    if w: "relayboard_write k f payload ?slack True True = Some (k1, r)" and r: "0 \<le> r"
      and g: "files k1 g = Some i" "device i = Some p"
      and c: "4 \<le> count" "4 \<le> writable" "\<not> jiffies - last_call i < of_nat (HZ div 2)"
    for k1 r g i count jiffies writable
    using w
  proof (cases rule: write_Some_cases)
    case failed
    with r show ?thesis by simp
  next
    case (committed infos' p' dev0)
    with assms(6,7,8) have "devs k1 p = Some (dev\<lparr>relay_states := ?m\<rparr>)"
      by (simp only: m) simp
    with c g have "relayboard_read HZ k1 g count jiffies writable =
        Some (k1\<lparr>files := (files k1)(g \<mapsto> i\<lparr>last_call := jiffies\<rparr>)\<rparr>,
              int (min (length (mask_text ?m)) writable), take writable (mask_text ?m))"
      by (simp add: read_passes)
    moreover have "length (mask_text ?m) \<le> writable"
      using length_mask_text(1) [of ?m] c(2) by simp
    ultimately show ?thesis
      by (simp add: tx)
  qed
  from first second show ?thesis
    by blast
qed


theorem write_parses_past_the_payload_witness:
  "(case relayboard_write (opened (\<lambda>n. (0, 11)) 0 :: 32 kernel) 1 ''12'' ''7x'' True True of
      None \<Rightarrow> False
    | Some (k1, r) \<Rightarrow>
        r = 2 \<and> map_option relay_states (devs k1 1) = Some 127
        \<and> map_option snd (relayboard_read 1000 k1 1 16 5000 16) =
              Some (4, [CHR ''1'', CHR ''2'', CHR ''7'', CHR 0x0A]))
   \<and> dec_value ''12'' mod 256 = 12
   \<and> (case relayboard_write (opened (\<lambda>n. (0, 11)) 0 :: 32 kernel) 1 ''00000012'' ''7x'' True True of
      None \<Rightarrow> False
    | Some (k1, r) \<Rightarrow> r = 8 \<and> map_option relay_states (devs k1 1) = Some 127)
   \<and> (case relayboard_write (opened (\<lambda>n. (0, 11)) 0 :: 32 kernel) 1 ''300'' [] True True of
      None \<Rightarrow> False
    | Some (k1, r) \<Rightarrow>
        r = 3 \<and> map_option relay_states (devs k1 1) = Some 44
        \<and> map_option snd (relayboard_read 1000 k1 1 16 5000 16) =
              Some (3, [CHR ''4'', CHR ''4'', CHR 0x0A]))"
proof -
  let ?k = "opened (\<lambda>n. (0, 11)) 0 :: 32 kernel"
  let ?i = "\<lparr>device = Some 1, last_call = 0 :: 32 word\<rparr>"
  let ?dev = "\<lparr>udev = 3, interface = Some 7, kref = 2, relay_states = 0\<rparr>"
  have handle: "files ?k 1 = Some ?i" "device ?i = Some 1" "devs ?k 1 = Some ?dev"
    by (simp_all add: opened_def)
  have len: "8 \<le> LENGTH(32)" by simp
  have s: "relayboard_send_status (usb ?k) ?dev m =
      ((usb ?k)\<lparr>sent := sent (usb ?k) @ map (bulk_out ?dev) (commit_payloads m)\<rparr>,
       ?dev\<lparr>relay_states := m\<rparr>, 0)" for m
    by (rule send_status_accepted) (simp add: opened_def accepts_def)
  let ?after = "\<lambda>m. ?k\<lparr>usb := (usb ?k)\<lparr>sent := sent (usb ?k) @ map (bulk_out ?dev) (commit_payloads m)\<rparr>,
                 devs := (devs ?k)(1 \<mapsto> ?dev\<lparr>relay_states := m\<rparr>)\<rparr>"
  \<comment> \<open>the payload 12 with the bytes 7x behind it\<close>
  have d1: "''12'' \<noteq> []" "\<forall>c \<in> set ''12''. isdigit c" "\<forall>c \<in> set ''7''. isdigit c"
    "''x'' = [] \<or> \<not> isdigit (hd ''x'')"
    by (simp_all add: isdigit_def)
  note t1 = write_parses_past_the_payload [OF len d1 handle, of 1000]
  have v1: "dec_value ''127'' mod 256 = 127" and v0: "dec_value ''12'' mod 256 = 12"
    by (simp_all add: dec_value_def)
  have w1: "relayboard_write ?k 1 ''12'' ''7x'' True True = Some (?after 127, 2)"
    using t1 [THEN conjunct1] by (simp add: v1 s)
  from w1 t1 [THEN conjunct2, rule_format, where ?k1.0 = "?after 127" and r = 2 and g = 1
      and i = ?i and count = 16 and jiffies = 5000 and writable = 16]
  have "map_option snd (relayboard_read 1000 (?after 127) 1 16 5000 16) =
      Some (int (length (decimal (dec_value (''12'' @ ''7'') mod 256) @ [CHR 0x0A])),
            decimal (dec_value (''12'' @ ''7'') mod 256) @ [CHR 0x0A])"
    by (simp add: opened_def)
  then have r1: "map_option snd (relayboard_read 1000 (?after 127) 1 16 5000 16) =
      Some (4, [CHR ''1'', CHR ''2'', CHR ''7'', CHR 0x0A])"
    by (simp add: v1 decimal.simps)
  \<comment> \<open>a payload of 8 bytes, which fills the smallest kmalloc object\<close>
  have d3: "''00000012'' \<noteq> []" "\<forall>c \<in> set ''00000012''. isdigit c" "\<forall>c \<in> set ''7''. isdigit c"
    "''x'' = [] \<or> \<not> isdigit (hd ''x'')"
    by (simp_all add: isdigit_def)
  note t3 = write_parses_past_the_payload [OF len d3 handle, of 1000]
  have v3: "dec_value ''000000127'' mod 256 = 127"
    by (simp add: dec_value_def)
  have w3: "relayboard_write ?k 1 ''00000012'' ''7x'' True True = Some (?after 127, 8)"
    using t3 [THEN conjunct1] by (simp add: v3 s)
  \<comment> \<open>the payload 300 with a terminator behind it\<close>
  have d2: "''300'' \<noteq> []" "\<forall>c \<in> set ''300''. isdigit c" "\<forall>c \<in> set []. isdigit c"
    "[] = [] \<or> \<not> isdigit (hd [])"
    by (simp_all add: isdigit_def)
  note t2 = write_parses_past_the_payload [OF len d2 handle, of 1000]
  have v2: "dec_value ''300'' mod 256 = 44"
    by (simp add: dec_value_def)
  have w2: "relayboard_write ?k 1 ''300'' [] True True = Some (?after 44, 3)"
    using t2 [THEN conjunct1] by (simp add: v2 s)
  from w2 t2 [THEN conjunct2, rule_format, where ?k1.0 = "?after 44" and r = 3 and g = 1
      and i = ?i and count = 16 and jiffies = 5000 and writable = 16]
  have "map_option snd (relayboard_read 1000 (?after 44) 1 16 5000 16) =
      Some (int (length (decimal (dec_value (''300'' @ []) mod 256) @ [CHR 0x0A])),
            decimal (dec_value (''300'' @ []) mod 256) @ [CHR 0x0A])"
    by (simp add: opened_def)
  then have r2: "map_option snd (relayboard_read 1000 (?after 44) 1 16 5000 16) =
      Some (3, [CHR ''4'', CHR ''4'', CHR 0x0A])"
    by (simp add: v2 decimal.simps)
  have "((2::int) = 2 \<and> map_option relay_states (devs (?after 127) 1) = Some 127
        \<and> map_option snd (relayboard_read 1000 (?after 127) 1 16 5000 16) =
              Some (4, [CHR ''1'', CHR ''2'', CHR ''7'', CHR 0x0A]))
      \<and> dec_value ''12'' mod 256 = 12
      \<and> ((8::int) = 8 \<and> map_option relay_states (devs (?after 127) 1) = Some 127)
      \<and> ((3::int) = 3 \<and> map_option relay_states (devs (?after 44) 1) = Some 44
        \<and> map_option snd (relayboard_read 1000 (?after 44) 1 16 5000 16) =
              Some (3, [CHR ''4'', CHR ''4'', CHR 0x0A]))"
    using r1 r2 v0 by simp
  then show ?thesis
    by (simp only: w1 w2 w3 option.case prod.case)
qed

subsection \<open>What the entry points do to the device structures\<close>

lemma kref_get_Some:
  assumes "kref_get k p = Some k'"
  obtains dev where "devs k p = Some dev" "k' = k\<lparr>devs := (devs k)(p \<mapsto> dev\<lparr>kref := kref dev + 1\<rparr>)\<rparr>"
  using assms by (auto simp: kref_get_def split: option.splits)

lemma kref_put_Some:
  assumes "kref_put k p = Some k'"
  obtains (freed) dev where "devs k p = Some dev" "kref dev = 1" "k' = k\<lparr>devs := (devs k)(p := None)\<rparr>"
  | (kept) dev where "devs k p = Some dev" "kref dev \<noteq> 1"
      "k' = k\<lparr>devs := (devs k)(p \<mapsto> dev\<lparr>kref := kref dev - 1\<rparr>)\<rparr>"
  using assms by (auto simp: kref_put_def relayboard_free_def split: option.splits if_splits)

lemma same_masks_refl: "same_masks k k"
  by (simp add: same_masks_def)

lemma kref_get_masks: "kref_get k p = Some k' \<Longrightarrow> same_masks k k'"
  by (erule kref_get_Some) (simp add: same_masks_def)

lemma kref_put_masks: "kref_put k p = Some k' \<Longrightarrow> same_masks k k'"
  by (erule kref_put_Some) (simp_all add: same_masks_def)

lemma same_masks_trans: "same_masks k k1 \<Longrightarrow> same_masks k1 k2 \<Longrightarrow> same_masks k k2"
  unfolding same_masks_def by (metis option.map_disc_iff)

lemma same_masks_fields:
  "same_masks k (k\<lparr>files := fs\<rparr>)" "same_masks k (k\<lparr>intfdata := i\<rparr>)"
  "same_masks k (k\<lparr>minors := ms\<rparr>)" "same_masks k (k\<lparr>usb := u\<rparr>)"
  by (simp_all add: same_masks_def)

lemma open_masks: "relayboard_open k minor file alloc_ok = Some (k', r) \<Longrightarrow> same_masks k k'"
proof -
  assume a: "relayboard_open k minor file alloc_ok = Some (k', r)"
  show ?thesis
  proof (cases "minors k minor")
    case None
    with a show ?thesis by (simp add: relayboard_open_def same_masks_refl)
  next
    case i: (Some intf)
    show ?thesis
    proof (cases "intfdata k intf")
      case None
      with a i show ?thesis by (simp add: relayboard_open_def same_masks_refl)
    next
      case (Some p)
      with a i obtain k1 where g: "kref_get k p = Some k1"
        and k': "k' = k1 \<or> k' = k1\<lparr>files := (files k1)(file \<mapsto> \<lparr>device = Some p, last_call = 0\<rparr>)\<rparr>"
        by (auto simp: relayboard_open_def split: Option.bind_splits if_splits)
      from g have "same_masks k k1" by (rule kref_get_masks)
      with k' show ?thesis
        by (auto intro: same_masks_trans same_masks_fields)
    qed
  qed
qed

lemma close_masks: "relayboard_close k file = Some (k', r) \<Longrightarrow> same_masks k k'"
proof -
  assume a: "relayboard_close k file = Some (k', r)"
  then obtain infos where f: "files k file = Some infos"
    by (auto simp: relayboard_close_def split: Option.bind_splits)
  show ?thesis
  proof (cases "device infos")
    case None
    with a f show ?thesis by (simp add: relayboard_close_def same_masks_refl)
  next
    case (Some p)
    with a f obtain k1 where g: "kref_put k p = Some k1" and k': "k' = k1\<lparr>files := (files k1)(file := None)\<rparr>"
      by (auto simp: relayboard_close_def split: Option.bind_splits)
    from g have "same_masks k k1" by (rule kref_put_masks)
    with k' show ?thesis
      by (auto intro: same_masks_trans same_masks_fields)
  qed
qed

lemma disconnect_masks: "relayboard_disconnect k intf = Some k' \<Longrightarrow> same_masks k k'"
proof -
  assume a: "relayboard_disconnect k intf = Some k'"
  then obtain p dev where p: "intfdata k intf = Some p" and dev: "devs k p = Some dev"
    by (auto simp: relayboard_disconnect_def split: Option.bind_splits)
  let ?k1 = "k\<lparr>intfdata := (intfdata k)(intf := None),
                minors := (\<lambda>m. if minors k m = Some intf then None else minors k m),
                devs := (devs k)(p \<mapsto> dev\<lparr>interface := None\<rparr>)\<rparr>"
  from a p dev have "kref_put ?k1 p = Some k'"
    by (simp add: relayboard_disconnect_def Let_def)
  then have "same_masks ?k1 k'" by (rule kref_put_masks)
  moreover have "same_masks k ?k1"
    using dev by (simp add: same_masks_def)
  ultimately show ?thesis by (rule same_masks_trans [rotated])
qed

lemma read_masks: "relayboard_read HZ k f count jiffies writable = Some (k', n, d) \<Longrightarrow> same_masks k k'"
  by (erule read_Some_cases) (simp_all add: same_masks_refl same_masks_fields)

lemma same_masks_keeps: "same_masks k k' \<Longrightarrow> keeps d k k'"
  by (simp add: same_masks_def keeps_def)

lemma same_masks_bounded: "same_masks k k' \<Longrightarrow> bounded k \<Longrightarrow> bounded k'"
  unfolding same_masks_def bounded_def by (metis option.map_disc_iff)

lemma keeps_trans: "keeps d k k1 \<Longrightarrow> keeps d k1 k2 \<Longrightarrow> keeps d k k2"
  unfolding keeps_def by (metis le_trans less_le_trans option.map_disc_iff)

lemma probe_effect:
  assumes "relayboard_probe k intf usbdev descr alloc_ok result minor = Some (k', r)"
  shows "brk k \<le> brk k'" and "q \<noteq> brk k \<Longrightarrow> devs k' q = devs k q"
    and "devs k' (brk k) \<noteq> None \<Longrightarrow> devs k (brk k) \<noteq> None \<or> brk k < brk k'"
proof -
  let ?p = "brk k"
  let ?dev = "\<lparr>udev = usbdev, interface = Some intf, kref = 1, relay_states = 0\<rparr>"
  let ?k1 = "k\<lparr>devs := (devs k)(?p \<mapsto> ?dev), brk := Suc ?p, intfdata := (intfdata k)(intf \<mapsto> ?p)\<rparr>"
  have put: "kref_put (?k1\<lparr>intfdata := (intfdata ?k1)(intf := None)\<rparr>) ?p =
      Some (?k1\<lparr>intfdata := (intfdata ?k1)(intf := None), devs := (devs k)(?p := None)\<rparr>)"
    by (simp add: kref_put_def relayboard_free_def)
  consider (same) "k' = k"
    | (unreg) "k' = ?k1\<lparr>intfdata := (intfdata ?k1)(intf := None), devs := (devs k)(?p := None)\<rparr>"
    | (reg) "k' = ?k1\<lparr>minors := (minors ?k1)(minor \<mapsto> intf)\<rparr>"
    using assms put
    by (auto simp: relayboard_probe_def Let_def split: if_splits)
  then have "brk k \<le> brk k' \<and> (q \<noteq> brk k \<longrightarrow> devs k' q = devs k q)
      \<and> (devs k' (brk k) \<noteq> None \<longrightarrow> devs k (brk k) \<noteq> None \<or> brk k < brk k')"
  proof cases
    case same
    then show ?thesis by simp
  next
    case unreg
    then show ?thesis by simp
  next
    case reg
    then show ?thesis by simp
  qed
  then show "brk k \<le> brk k'" and "q \<noteq> brk k \<Longrightarrow> devs k' q = devs k q"
    and "devs k' (brk k) \<noteq> None \<Longrightarrow> devs k (brk k) \<noteq> None \<or> brk k < brk k'"
    by simp_all
qed

lemma probe_keeps:
  assumes "relayboard_probe k intf usbdev descr alloc_ok result minor = Some (k', r)"
  shows "keeps d k k'"
  unfolding keeps_def using probe_effect(1) [OF assms] probe_effect(2) [OF assms, of d]
  by auto

lemma probe_bounded:
  assumes "relayboard_probe k intf usbdev descr alloc_ok result minor = Some (k', r)"
    and "bounded k"
  shows "bounded k'"
  unfolding bounded_def
proof (intro allI impI)
  fix q assume q: "devs k' q \<noteq> None"
  show "q < brk k'"
  proof (cases "q = brk k")
    case True
    with q probe_effect(3) [OF assms(1)] assms(2) show ?thesis
      by (auto simp: bounded_def)
  next
    case False
    with q probe_effect(1) [OF assms(1)] probe_effect(2) [OF assms(1), of q] assms(2) show ?thesis
      by (auto simp: bounded_def)
  qed
qed

lemma write_keeps:
  assumes "relayboard_write k f payload slack alloc_ok copy_ok = Some (k', r)"
    and "\<not> commits d (Write f payload slack alloc_ok copy_ok) k"
  shows "keeps d k k'"
  using assms(1)
proof (cases rule: write_Some_cases)
  case failed
  then show ?thesis by (simp add: keeps_def)
next
  case (committed infos p dev)
  with assms have "p \<noteq> d"
    by (auto simp: commits_def)
  with committed show ?thesis by (simp add: keeps_def)
qed

lemma write_bounded:
  assumes "relayboard_write k f payload slack alloc_ok copy_ok = Some (k', r)" and "bounded k"
  shows "bounded k'"
  using assms(1)
proof (cases rule: write_Some_cases)
  case failed
  with assms(2) show ?thesis by (simp add: bounded_def)
next
  case (committed infos p dev)
  with assms(2) show ?thesis by (auto simp: bounded_def)
qed

lemma step_keeps:
  assumes "step HZ c k = Some (k', r)" and "\<not> commits d c k"
  shows "keeps d k k'"
proof (cases c)
  case (Probe intf usbdev descr alloc_ok result minor)
  with assms(1) show ?thesis by (auto intro: probe_keeps)
next
  case (Disconnect intf)
  with assms(1) show ?thesis by (auto intro: same_masks_keeps disconnect_masks)
next
  case (Open minor fl alloc_ok)
  with assms(1) show ?thesis by (auto intro: same_masks_keeps open_masks)
next
  case (Close fl)
  with assms(1) show ?thesis by (auto intro: same_masks_keeps close_masks)
next
  case (Read fl count jiffies writable)
  with assms(1) show ?thesis by (auto intro: same_masks_keeps read_masks)
next
  case (Write fl payload slack alloc_ok copy_ok)
  with assms show ?thesis by (auto intro: write_keeps)
qed

lemma step_bounded:
  assumes "step HZ c k = Some (k', r)" and "bounded k"
  shows "bounded k'"
proof (cases c)
  case (Probe intf usbdev descr alloc_ok result minor)
  with assms show ?thesis by (auto intro: probe_bounded)
next
  case (Disconnect intf)
  with assms show ?thesis by (auto intro: same_masks_bounded disconnect_masks)
next
  case (Open minor fl alloc_ok)
  with assms show ?thesis by (auto intro: same_masks_bounded open_masks)
next
  case (Close fl)
  with assms show ?thesis by (auto intro: same_masks_bounded close_masks)
next
  case (Read fl count jiffies writable)
  with assms show ?thesis by (auto intro: same_masks_bounded read_masks)
next
  case (Write fl payload slack alloc_ok copy_ok)
  with assms show ?thesis by (auto intro: write_bounded)
qed

lemma run_bounded: "run HZ cs k = Some k' \<Longrightarrow> bounded k \<Longrightarrow> bounded k'"
proof (induction cs arbitrary: k)
  case Nil
  then show ?case by simp
next
  case (Cons c cs)
  from Cons.prems(1) obtain k1 r where s: "step HZ c k = Some (k1, r)" and r: "run HZ cs k1 = Some k'"
    by (auto split: option.splits)
  from s Cons.prems(2) have "bounded k1" by (rule step_bounded)
  with r show ?case by (rule Cons.IH)
qed

lemma boot_bounded: "bounded (boot r)"
  by (simp add: bounded_def boot_def)

lemma run_keeps: "quiet HZ d cs k \<Longrightarrow> run HZ cs k = Some k' \<Longrightarrow> keeps d k k'"
proof (induction cs arbitrary: k)
  case Nil
  then show ?case by (simp add: keeps_def)
next
  case (Cons c cs)
  from Cons.prems(2) obtain k1 r where s: "step HZ c k = Some (k1, r)" and r: "run HZ cs k1 = Some k'"
    by (auto split: option.splits)
  from Cons.prems(1) s have nc: "\<not> commits d c k" and q: "quiet HZ d cs k1"
    by simp_all
  from s nc have "keeps d k k1" by (rule step_keeps)
  moreover from q r have "keeps d k1 k'" by (rule Cons.IH)
  ultimately show ?case by (rule keeps_trans)
qed

subsection \<open>The shadow mask between two commits\<close>

text \<open>
  C3. In a state the driver reaches from boot, let a write through a file on device
  \<open>d\<close> succeed with mask \<open>m\<close>. After any further sequence of driver calls in which no
  write through a file on \<open>d\<close> succeeds, every read through any file on \<open>d\<close>, the
  writing one or another, that delivers data delivers the text of \<open>m\<close>.
\<close>

theorem setMask_then_getMask:
  fixes k :: "('w::len) kernel"
  assumes "run HZ cs0 (boot r0) = Some k"
    and "files k f = Some infos" and "device infos = Some d"
    and "relayboard_write k f payload slack alloc_ok copy_ok = Some (k1, r)" and "0 \<le> r"
    and "quiet HZ d cs k1" and "run HZ cs k1 = Some k2"
    and "files k2 g = Some infos'" and "device infos' = Some d"
    and "relayboard_read HZ k2 g count jiffies writable = Some (k3, n, data)" and "data \<noteq> []"
  shows "data = take writable (mask_text (ucast (simple_strtoul (payload @ slack) :: 'w word)))
         \<and> n = int (length data)"
proof -
  let ?m = "ucast (simple_strtoul (payload @ slack) :: 'w word) :: byte"
  have "bounded k"
    using assms(1) boot_bounded by (rule run_bounded)
  from assms(4) have k1: "d < brk k1 \<and> map_option relay_states (devs k1 d) = Some ?m"
  proof (cases rule: write_Some_cases)
    case failed
    with assms(5) show ?thesis by simp
  next
    case (committed infos0 p dev)
    with assms(2,3) have "p = d" by simp
    with committed \<open>bounded k\<close> show ?thesis
      by (auto simp: bounded_def)
  qed
  from assms(6,7) have "keeps d k1 k2" by (rule run_keeps)
  with k1 have k2: "devs k2 d = None \<or> map_option relay_states (devs k2 d) = Some ?m"
    unfolding keeps_def by metis
  from assms(10) show ?thesis
  proof (cases rule: read_Some_cases)
    case refused
    with assms(11) show ?thesis by simp
  next
    case (passes i p dev)
    with assms(8,9) have "p = d" by simp
    with passes k2 have "relay_states dev = ?m" by auto
    with passes show ?thesis by simp
  qed
qed


theorem setMask_then_getMask_witness:
  "(case relayboard_write
           (opened_twice (\<lambda>n. if n < 27 then (0, 11) else (- 110, 0)) 0 :: 32 kernel)
           1 ''5'' [] True True of
      None \<Rightarrow> False
    | Some (k1, r) \<Rightarrow>
        r = 1
        \<and> quiet 1000 1 [Read 2 16 5000 16, Write 2 ''9'' [] True True, Close 1] k1
        \<and> (case run 1000 [Read 2 16 5000 16, Write 2 ''9'' [] True True, Close 1] k1 of
              None \<Rightarrow> False
            | Some k2 \<Rightarrow>
                map_option snd (relayboard_read 1000 k2 2 16 6000 16) =
                  Some (2, [CHR ''5'', CHR 0x0A])))"
proof -
  let ?r0 = "\<lambda>n::nat. if n < 27 then (0, 11) else (- 110, 0) :: int \<times> int"
  let ?k = "opened_twice ?r0 0 :: 32 kernel"
  let ?i = "\<lparr>device = Some 1, last_call = 0 :: 32 word\<rparr>"
  let ?dev = "\<lparr>udev = 3, interface = Some 7, kref = 3, relay_states = 0\<rparr>"
  let ?cs = "[Read 2 16 5000 16, Write 2 ''9'' [] True True, Close 1] :: 32 word call list"
  have m5: "(ucast (simple_strtoul ''5'' :: 32 word) :: byte) = 5"
    and m9: "(ucast (simple_strtoul ''9'' :: 32 word) :: byte) = 9"
    by (simp_all add: simple_strtoul_def isdigit_def)
  have t5: "mask_text 5 = [CHR ''5'', CHR 0x0A]"
    by (simp add: mask_text_def decimal.simps)
  \<comment> \<open>the write of 5 succeeds\<close>
  let ?u1 = "(usb ?k)\<lparr>sent := sent (usb ?k) @ map (bulk_out ?dev) (commit_payloads 5)\<rparr>"
  let ?k1 = "?k\<lparr>usb := ?u1, devs := (devs ?k)(1 \<mapsto> ?dev\<lparr>relay_states := 5\<rparr>)\<rparr>"
  have "relayboard_send_status (usb ?k) ?dev 5 = (?u1, ?dev\<lparr>relay_states := 5\<rparr>, 0)"
    by (rule send_status_accepted) (simp add: opened_twice_def accepts_def)
  then have w: "relayboard_write ?k 1 ''5'' [] True True = Some (?k1, 1)"
    using write_sends [of ?k 1 ?i 1 ?dev "''5''" "[]"]
    by (simp add: m5 opened_twice_def)
  \<comment> \<open>a read through the other file\<close>
  let ?ka = "?k1\<lparr>files := (files ?k1)(2 \<mapsto> ?i\<lparr>last_call := 5000\<rparr>)\<rparr>"
  have ra: "relayboard_read 1000 ?k1 2 16 5000 16 = Some (?ka, 2, [CHR ''5'', CHR 0x0A])"
    by (simp add: read_eval opened_twice_def t5)
  \<comment> \<open>a write of 9 that the bus refuses at its first frame\<close>
  let ?dev5 = "?dev\<lparr>relay_states := 5\<rparr>"
  let ?ub = "(usb ?ka)\<lparr>sent := sent (usb ?ka) @ map (bulk_out ?dev5) (take (Suc 0) (commit_payloads 9))\<rparr>"
  let ?kb = "?ka\<lparr>usb := ?ub\<rparr>"
  have "relayboard_send_status (usb ?ka) ?dev5 9 = (?ub, ?dev5, - EFAULT)"
    by (rule send_status_refused)
      (simp_all add: opened_twice_def accepts_def length_commit_payloads)
  then have wb: "relayboard_write ?ka 2 ''9'' [] True True = Some (?kb, - 14)"
    using write_sends [of ?ka 2 "?i\<lparr>last_call := 5000\<rparr>" 1 ?dev5 "''9''" "[]"]
    by (simp add: m9 opened_twice_def EFAULT_def)
  \<comment> \<open>the first file is closed\<close>
  let ?kc = "?kb\<lparr>devs := (devs ?kb)(1 \<mapsto> ?dev5\<lparr>kref := 2\<rparr>), files := (files ?kb)(1 := None)\<rparr>"
  have cc: "relayboard_close ?kb 1 = Some (?kc, 0)"
    by (simp add: relayboard_close_def kref_put_def opened_twice_def)
  have run: "run 1000 ?cs ?k1 = Some ?kc"
    using ra wb cc by simp
  have quiet: "quiet 1000 1 ?cs ?k1"
    using ra wb cc by (simp add: commits_def)
  have rd: "relayboard_read 1000 ?kc 2 16 6000 16 =
      Some (?kc\<lparr>files := (files ?kc)(2 \<mapsto> ?i\<lparr>last_call := 6000\<rparr>)\<rparr>, 2, [CHR ''5'', CHR 0x0A])"
    by (simp add: read_eval opened_twice_def t5)
  have th: "[CHR ''5'', CHR 0x0A] = take 16 (mask_text (ucast (simple_strtoul (''5'' @ []) :: 32 word)))
      \<and> (2::int) = int (length [CHR ''5'', CHR 0x0A])"
  proof (rule setMask_then_getMask [OF opened_twice_reachable [of 1000 ?r0] _ _ w _ quiet run _ _ rd])
    show "files ?k 1 = Some ?i" by (simp add: opened_twice_def)
    show "device ?i = Some 1" by simp
    show "(0::int) \<le> 1" by simp
    show "files ?kc 2 = Some (?i\<lparr>last_call := 5000\<rparr>)" by (simp add: opened_twice_def)
    show "device (?i\<lparr>last_call := 5000\<rparr>) = Some 1" by simp
    show "[CHR ''5'', CHR 0x0A] \<noteq> []" by simp
  qed
  from th [THEN conjunct1, symmetric] rd quiet have "(1::int) = 1 \<and> quiet 1000 1 ?cs ?k1
      \<and> (case Some ?kc of None \<Rightarrow> False
          | Some k2 \<Rightarrow> map_option snd (relayboard_read 1000 k2 2 16 6000 16) =
                  Some (2, [CHR ''5'', CHR 0x0A]))"
    by simp
  then show ?thesis
    by (simp only: w run [symmetric] option.case prod.case)
qed

subsection \<open>Reference counting in every reachable state\<close>

lemma holders_subset_dom: "holders k p \<subseteq> dom (files k)"
  by (auto simp: holders_def)

lemma finite_holders: "finite (dom (files k)) \<Longrightarrow> finite (holders k p)"
  using holders_subset_dom by (rule finite_subset)

lemma holders_cong: "files k' = files k \<Longrightarrow> holders k' p = holders k p"
  by (simp add: holders_def)

lemma registered_cong: "intfdata k' = intfdata k \<Longrightarrow> registered k' p = registered k p"
  by (simp add: registered_def)

lemma holders_put:
  assumes "files k' = (files k)(f \<mapsto> i)"
  shows "device i = Some p \<Longrightarrow> holders k' p = insert f (holders k p)"
    and "device i \<noteq> Some p \<Longrightarrow> holders k' p = holders k p - {f}"
  using assms by (auto simp: holders_def)

lemma holders_del:
  assumes "files k' = (files k)(f := None)"
  shows "holders k' p = holders k p - {f}"
  using assms by (auto simp: holders_def)

lemma card_holders_put:
  assumes "files k' = (files k)(f \<mapsto> i)" and "finite (dom (files k))"
  shows "device i = Some p \<Longrightarrow> card (holders k' p) \<le> Suc (card (holders k p))"
    and "device i \<noteq> Some p \<Longrightarrow> card (holders k' p) \<le> card (holders k p)"
proof -
  have fin: "finite (holders k p)" using assms(2) by (rule finite_holders)
  show "device i = Some p \<Longrightarrow> card (holders k' p) \<le> Suc (card (holders k p))"
    using holders_put(1) [OF assms(1)] fin by (simp add: card_insert_if)
  show "device i \<noteq> Some p \<Longrightarrow> card (holders k' p) \<le> card (holders k p)"
    using holders_put(2) [OF assms(1)] fin by (simp add: card_Diff1_le)
qed

lemma boot_refs_ok: "refs_ok (boot r)"
  by (simp add: refs_ok_def bounded_def holders_def registered_def boot_def)




lemma holders_upd [simp]:
  "holders (k\<lparr>devs := dv\<rparr>) = holders k" "holders (k\<lparr>usb := u\<rparr>) = holders k"
  "holders (k\<lparr>intfdata := i\<rparr>) = holders k" "holders (k\<lparr>minors := ms\<rparr>) = holders k"
  "holders (k\<lparr>brk := b\<rparr>) = holders k"
  by (simp_all add: holders_def fun_eq_iff)

lemma registered_upd [simp]:
  "registered (k\<lparr>devs := dv\<rparr>) = registered k" "registered (k\<lparr>usb := u\<rparr>) = registered k"
  "registered (k\<lparr>files := fs\<rparr>) = registered k" "registered (k\<lparr>minors := ms\<rparr>) = registered k"
  "registered (k\<lparr>brk := b\<rparr>) = registered k"
  by (simp_all add: registered_def fun_eq_iff)

lemma refs_okI:
  assumes "bounded k" and "finite (dom (files k))"
    and "\<And>p. holders k p \<noteq> {} \<Longrightarrow> devs k p \<noteq> None"
    and "\<And>p. registered k p \<Longrightarrow> devs k p \<noteq> None"
    and "\<And>p dev. devs k p = Some dev \<Longrightarrow>
          int (card (holders k p)) + (if registered k p then 1 else 0) \<le> kref dev"
    and "\<And>a b p. intfdata k a = Some p \<Longrightarrow> intfdata k b = Some p \<Longrightarrow> a = b"
  shows "refs_ok k"
  unfolding refs_ok_def using assms by blast

lemma refs_okD:
  assumes "refs_ok k"
  shows "bounded k" and "finite (dom (files k))"
    and "holders k p \<noteq> {} \<Longrightarrow> devs k p \<noteq> None"
    and "registered k p \<Longrightarrow> devs k p \<noteq> None"
    and "devs k p = Some dev \<Longrightarrow>
          int (card (holders k p)) + (if registered k p then 1 else 0) \<le> kref dev"
    and "intfdata k a = Some p \<Longrightarrow> intfdata k b = Some p \<Longrightarrow> a = b"
  using assms unfolding refs_ok_def by blast+

text \<open>The invariant reads the device structures through their counters only.\<close>

lemma refs_ok_cong:
  assumes "refs_ok k"
    and "\<And>p. map_option kref (devs k' p) = map_option kref (devs k p)"
    and "\<And>p. holders k' p = holders k p" and "dom (files k') = dom (files k)"
    and "intfdata k' = intfdata k" and "brk k' = brk k"
  shows "refs_ok k'"
proof (rule refs_okI)
  have dom: "devs k' p = None \<longleftrightarrow> devs k p = None" for p
    using assms(2) [of p] by (metis option.map_disc_iff)
  have reg: "registered k' p = registered k p" for p
    using assms(5) by (rule registered_cong)
  show "bounded k'"
    using refs_okD(1) [OF assms(1)] dom assms(6) by (simp add: bounded_def)
  show "finite (dom (files k'))"
    using refs_okD(2) [OF assms(1)] assms(4) by simp
  show "holders k' p \<noteq> {} \<Longrightarrow> devs k' p \<noteq> None" for p
    using refs_okD(3) [OF assms(1), of p] dom assms(3) by simp
  show "registered k' p \<Longrightarrow> devs k' p \<noteq> None" for p
    using refs_okD(4) [OF assms(1), of p] dom reg by simp
  show "int (card (holders k' p)) + (if registered k' p then 1 else 0) \<le> kref dev"
    if "devs k' p = Some dev" for p dev
  proof -
    from that assms(2) [of p] obtain dev0 where "devs k p = Some dev0" "kref dev0 = kref dev"
      by (cases "devs k p") auto
    with refs_okD(5) [OF assms(1), of p dev0] show ?thesis
      by (simp add: assms(3) reg)
  qed
  show "a = b" if "intfdata k' a = Some p" "intfdata k' b = Some p" for a b p
    using refs_okD(6) [OF assms(1), of a p b] that assms(5) by simp
qed

lemma read_refs_ok:
  assumes "relayboard_read HZ k f count jiffies writable = Some (k', n, d)" and "refs_ok k"
  shows "refs_ok k'"
  using assms(1)
proof (cases rule: read_Some_cases)
  case refused
  with assms(2) show ?thesis by simp
next
  case (passes infos p dev)
  show ?thesis
  proof (rule refs_ok_cong [OF assms(2)])
    show "holders k' q = holders k q" for q
      using passes by (auto simp: holders_def)
    show "dom (files k') = dom (files k)"
      using passes by auto
  qed (simp_all add: passes)
qed


lemma write_refs_ok:
  assumes "relayboard_write k f payload slack alloc_ok copy_ok = Some (k', r)" and "refs_ok k"
  shows "refs_ok k'"
  using assms(1)
proof (cases rule: write_Some_cases)
  case failed
  show ?thesis
  proof (rule refs_ok_cong [OF assms(2)])
    show "holders k' q = holders k q" for q
      by (rule holders_cong) (simp add: failed)
  qed (simp_all add: failed)
next
  case (committed infos p dev)
  show ?thesis
  proof (rule refs_ok_cong [OF assms(2)])
    show "holders k' q = holders k q" for q
      by (rule holders_cong) (simp add: committed)
  qed (simp_all add: committed)
qed

lemma kref_get_refs_ok:
  assumes "kref_get k p = Some k'" and "refs_ok k"
  shows "refs_ok k'"
  using assms(1)
proof (cases rule: kref_get_Some)
  case (1 dev)
  show ?thesis
  proof (rule refs_okI)
    show "bounded k'"
      using refs_okD(1) [OF assms(2)] 1 by (auto simp: bounded_def)
    show "finite (dom (files k'))"
      using refs_okD(2) [OF assms(2)] 1 by simp
    show "holders k' q \<noteq> {} \<Longrightarrow> devs k' q \<noteq> None" for q
      using refs_okD(3) [OF assms(2), of q] 1 by simp
    show "registered k' q \<Longrightarrow> devs k' q \<noteq> None" for q
      using refs_okD(4) [OF assms(2), of q] 1 by simp
    show "int (card (holders k' q)) + (if registered k' q then 1 else 0) \<le> kref dev'"
      if "devs k' q = Some dev'" for q dev'
    proof -
      show ?thesis
      proof (cases "q = p")
        case True
        with that 1 have "kref dev' = kref dev + 1" by auto
        with refs_okD(5) [OF assms(2), of p dev] 1 True show ?thesis
          by simp
      next
        case False
        with that 1 have "devs k q = Some dev'" by simp
        with refs_okD(5) [OF assms(2), of q dev'] 1 show ?thesis
          by simp
      qed
    qed
    show "a = b" if "intfdata k' a = Some q" "intfdata k' b = Some q" for a b q
      using refs_okD(6) [OF assms(2), of a q b] that 1 by simp
  qed
qed

lemma holder_added_refs_ok:
  assumes "refs_ok k" and "devs k p = Some dev"
  shows "refs_ok (k\<lparr>devs := (devs k)(p \<mapsto> dev\<lparr>kref := kref dev + 1\<rparr>),
                    files := (files k)(f \<mapsto> \<lparr>device = Some p, last_call = 0\<rparr>)\<rparr>)"
    (is "refs_ok ?k'")
proof (rule refs_okI)
  let ?i = "\<lparr>device = Some p, last_call = 0\<rparr> :: 'a file_additions"
  have fs: "files ?k' = (files k)(f \<mapsto> ?i)" by simp
  have fin: "finite (dom (files k))" by (rule refs_okD(2) [OF assms(1)])
  show "bounded ?k'"
    using refs_okD(1) [OF assms(1)] assms(2) by (auto simp: bounded_def)
  show "finite (dom (files ?k'))"
    using fin by simp
  show "devs ?k' q \<noteq> None" if "holders ?k' q \<noteq> {}" for q
  proof (cases "q = p")
    case True
    then show ?thesis by simp
  next
    case False
    then have "holders ?k' q = holders k q - {f}"
      using holders_put(2) [OF fs, of q] by simp
    with that have "holders k q \<noteq> {}" by auto
    with refs_okD(3) [OF assms(1), of q] False show ?thesis by simp
  qed
  show "registered ?k' q \<Longrightarrow> devs ?k' q \<noteq> None" for q
    using refs_okD(4) [OF assms(1), of q] by simp
  show "int (card (holders ?k' q)) + (if registered ?k' q then 1 else 0) \<le> kref dev'"
    if "devs ?k' q = Some dev'" for q dev'
  proof (cases "q = p")
    case True
    with that have "kref dev' = kref dev + 1" by auto
    moreover have "card (holders ?k' p) \<le> Suc (card (holders k p))"
      using card_holders_put(1) [OF fs fin, of p] by simp
    ultimately show ?thesis
      using refs_okD(5) [OF assms(1,2)] True by simp
  next
    case False
    with that have "devs k q = Some dev'" by simp
    moreover have "card (holders ?k' q) \<le> card (holders k q)"
      using card_holders_put(2) [OF fs fin, of q] False by simp
    ultimately show ?thesis
      using refs_okD(5) [OF assms(1), of q dev'] by simp
  qed
  show "a = b" if "intfdata ?k' a = Some q" "intfdata ?k' b = Some q" for a b q
    using refs_okD(6) [OF assms(1), of a q b] that by simp
qed

lemma open_Some_cases:
  assumes "relayboard_open k minor f alloc_ok = Some (k', r)"
  obtains (notfound) "k' = k" "r = - ENODEV"
  | (nomem) intf p dev where "minors k minor = Some intf" "intfdata k intf = Some p"
      "devs k p = Some dev" "\<not> alloc_ok" "r = - ENOMEM"
      "k' = k\<lparr>devs := (devs k)(p \<mapsto> dev\<lparr>kref := kref dev + 1\<rparr>)\<rparr>"
  | (opened) intf p dev where "minors k minor = Some intf" "intfdata k intf = Some p"
      "devs k p = Some dev" "alloc_ok" "r = 0"
      "k' = k\<lparr>devs := (devs k)(p \<mapsto> dev\<lparr>kref := kref dev + 1\<rparr>),
                files := (files k)(f \<mapsto> \<lparr>device = Some p, last_call = 0\<rparr>)\<rparr>"
proof (cases "minors k minor")
  case None
  with assms notfound show ?thesis by (simp add: relayboard_open_def)
next
  case i: (Some intf)
  show ?thesis
  proof (cases "intfdata k intf")
    case None
    with assms i notfound show ?thesis by (simp add: relayboard_open_def)
  next
    case p: (Some p)
    show ?thesis
    proof (cases "devs k p")
      case None
      with assms i p show ?thesis by (simp add: relayboard_open_def kref_get_def)
    next
      case (Some dev)
      show ?thesis
      proof (cases alloc_ok)
        case True
        with assms i p Some show ?thesis
          by (intro opened [of intf p dev]) (simp_all add: relayboard_open_def kref_get_def)
      next
        case False
        with assms i p Some show ?thesis
          by (intro nomem [of intf p dev]) (simp_all add: relayboard_open_def kref_get_def)
      qed
    qed
  qed
qed

lemma open_refs_ok:
  assumes "relayboard_open k minor f alloc_ok = Some (k', r)" and "refs_ok k"
  shows "refs_ok k'"
  using assms(1)
proof (cases rule: open_Some_cases)
  case notfound
  with assms(2) show ?thesis by simp
next
  case (nomem intf p dev)
  then have "kref_get k p = Some k'" by (simp add: kref_get_def)
  then show ?thesis using assms(2) by (rule kref_get_refs_ok)
next
  case (opened intf p dev)
  with holder_added_refs_ok [OF assms(2), of p dev f] show ?thesis by simp
qed

lemma close_Some_cases:
  assumes "relayboard_close k f = Some (k', r)"
  obtains (nodev) infos where "files k f = Some infos" "device infos = None" "k' = k" "r = - ENODEV"
  | (freed) infos p dev where "files k f = Some infos" "device infos = Some p"
      "devs k p = Some dev" "kref dev = 1" "r = 0"
      "k' = k\<lparr>devs := (devs k)(p := None), files := (files k)(f := None)\<rparr>"
  | (kept) infos p dev where "files k f = Some infos" "device infos = Some p"
      "devs k p = Some dev" "kref dev \<noteq> 1" "r = 0"
      "k' = k\<lparr>devs := (devs k)(p \<mapsto> dev\<lparr>kref := kref dev - 1\<rparr>), files := (files k)(f := None)\<rparr>"
proof (cases "files k f")
  case None
  with assms show ?thesis by (simp add: relayboard_close_def)
next
  case i: (Some infos)
  show ?thesis
  proof (cases "device infos")
    case None
    with assms i show ?thesis
      by (intro nodev [of infos]) (simp_all add: relayboard_close_def)
  next
    case p: (Some p)
    show ?thesis
    proof (cases "devs k p")
      case None
      with assms i p show ?thesis by (simp add: relayboard_close_def kref_put_def)
    next
      case (Some dev)
      show ?thesis
      proof (cases "kref dev = 1")
        case True
        with assms i p Some show ?thesis
          by (intro freed [of infos p dev])
            (simp_all add: relayboard_close_def kref_put_def relayboard_free_def)
      next
        case False
        with assms i p Some show ?thesis
          by (intro kept [of infos p dev])
            (simp_all add: relayboard_close_def kref_put_def relayboard_free_def)
      qed
    qed
  qed
qed

lemma disconnect_Some_cases:
  assumes "relayboard_disconnect k intf = Some k'"
  obtains (freed) p dev where "intfdata k intf = Some p" "devs k p = Some dev" "kref dev = 1"
      "k' = k\<lparr>intfdata := (intfdata k)(intf := None),
                minors := (\<lambda>m. if minors k m = Some intf then None else minors k m),
                devs := (devs k)(p := None)\<rparr>"
  | (kept) p dev where "intfdata k intf = Some p" "devs k p = Some dev" "kref dev \<noteq> 1"
      "k' = k\<lparr>intfdata := (intfdata k)(intf := None),
                minors := (\<lambda>m. if minors k m = Some intf then None else minors k m),
                devs := (devs k)(p \<mapsto> dev\<lparr>interface := None, kref := kref dev - 1\<rparr>)\<rparr>"
proof (cases "intfdata k intf")
  case None
  with assms show ?thesis by (simp add: relayboard_disconnect_def)
next
  case p: (Some p)
  show ?thesis
  proof (cases "devs k p")
    case None
    with assms p show ?thesis by (simp add: relayboard_disconnect_def)
  next
    case (Some dev)
    show ?thesis
    proof (cases "kref dev = 1")
      case True
      with assms p Some show ?thesis
        by (intro freed [of p dev])
          (simp_all add: relayboard_disconnect_def kref_put_def relayboard_free_def Let_def)
    next
      case False
      with assms p Some show ?thesis
        by (intro kept [of p dev])
          (simp_all add: relayboard_disconnect_def kref_put_def relayboard_free_def Let_def)
    qed
  qed
qed

lemma probe_Some_cases:
  assumes "relayboard_probe k intf usbdev descr alloc_ok result minor = Some (k', r)"
  obtains (nomatch) "k' = k" "r = - ENODEV"
  | (nomem) "k' = k" "r = - ENOMEM" "\<not> alloc_ok"
  | (unregistered) "result \<noteq> 0" "r = result"
      "k' = k\<lparr>devs := (devs k)(brk k := None), brk := Suc (brk k),
                intfdata := (intfdata k)(intf := None)\<rparr>"
  | (attached) "result = 0" "r = 0"
      "k' = k\<lparr>devs := (devs k)(brk k \<mapsto> \<lparr>udev = usbdev, interface = Some intf, kref = 1, relay_states = 0\<rparr>),
                brk := Suc (brk k), intfdata := (intfdata k)(intf \<mapsto> brk k),
                minors := (minors k)(minor \<mapsto> intf)\<rparr>"
proof -
  let ?match = "bNumConfigurations descr = 1 \<and> bMaxPower descr = 48
         \<and> bNumInterfaces descr = 1 \<and> bNumEndpoints descr = 3"
  show ?thesis
  proof (cases ?match)
    case False
    from assms have "Some (k, - ENODEV) = Some (k', r)"
      unfolding relayboard_probe_def by (simp only: False if_False)
    then show ?thesis
      by (intro nomatch) simp_all
  next
    case m: True
    show ?thesis
    proof (cases alloc_ok)
      case False
      with assms m show ?thesis
        by (intro nomem) (simp_all add: relayboard_probe_def)
    next
      case a: True
      show ?thesis
      proof (cases "result = 0")
        case True
        with assms m a show ?thesis
          by (intro attached) (simp_all add: relayboard_probe_def Let_def)
      next
        case False
        with assms m a show ?thesis
          by (intro unregistered)
            (auto simp: relayboard_probe_def Let_def kref_put_def relayboard_free_def)
      qed
    qed
  qed
qed

lemma close_refs_ok:
  assumes "relayboard_close k f = Some (k', r)" and "refs_ok k"
  shows "refs_ok k'"
  using assms(1)
proof (cases rule: close_Some_cases)
  case (nodev infos)
  with assms(2) show ?thesis by simp
next
  case (freed infos p dev)
  have fs: "files k' = (files k)(f := None)" using freed by simp
  have fin: "finite (holders k q)" for q
    using refs_okD(2) [OF assms(2)] by (rule finite_holders)
  have h: "holders k' q = holders k q - {f}" for q
    using fs by (rule holders_del)
  have fp: "f \<in> holders k p" using freed by (auto simp: holders_def)
  from fp fin [of p] have pos: "0 < card (holders k p)"
    by (auto simp: card_gt_0_iff)
  with refs_okD(5) [OF assms(2) freed(3)] freed(4)
  have one: "card (holders k p) = 1" and nreg: "\<not> registered k p"
    by (auto split: if_splits)
  from one fp fin [of p] have hp: "holders k' p = {}"
    by (metis h card_1_singletonE Diff_cancel singletonD)
  show ?thesis
  proof (rule refs_okI)
    show "bounded k'"
      using refs_okD(1) [OF assms(2)] freed by (auto simp: bounded_def)
    show "finite (dom (files k'))"
      using refs_okD(2) [OF assms(2)] freed by simp
    show "devs k' q \<noteq> None" if "holders k' q \<noteq> {}" for q
    proof -
      from that hp have "q \<noteq> p" by auto
      moreover from that h have "holders k q \<noteq> {}" by auto
      ultimately show ?thesis
        using refs_okD(3) [OF assms(2), of q] freed by simp
    qed
    show "devs k' q \<noteq> None" if "registered k' q" for q
    proof -
      from that freed have "registered k q" by simp
      with nreg have "q \<noteq> p" by auto
      with \<open>registered k q\<close> refs_okD(4) [OF assms(2), of q] freed show ?thesis by simp
    qed
    show "int (card (holders k' q)) + (if registered k' q then 1 else 0) \<le> kref dev'"
      if "devs k' q = Some dev'" for q dev'
    proof -
      from that freed have "q \<noteq> p" "devs k q = Some dev'" by (auto split: if_splits)
      moreover have "card (holders k' q) \<le> card (holders k q)"
        using h fin by (simp add: card_Diff1_le)
      moreover have "registered k' q = registered k q" using freed by simp
      ultimately show ?thesis
        using refs_okD(5) [OF assms(2), of q dev'] by simp
    qed
    show "a = b" if "intfdata k' a = Some q" "intfdata k' b = Some q" for a b q
      using refs_okD(6) [OF assms(2), of a q b] that freed by simp
  qed
next
  case (kept infos p dev)
  have fs: "files k' = (files k)(f := None)" using kept by simp
  have fin: "finite (holders k q)" for q
    using refs_okD(2) [OF assms(2)] by (rule finite_holders)
  have h: "holders k' q = holders k q - {f}" for q
    using fs by (rule holders_del)
  have fp: "f \<in> holders k p" using kept by (auto simp: holders_def)
  have reg: "registered k' q = registered k q" for q using kept by simp
  show ?thesis
  proof (rule refs_okI)
    show "bounded k'"
      using refs_okD(1) [OF assms(2)] kept by (auto simp: bounded_def)
    show "finite (dom (files k'))"
      using refs_okD(2) [OF assms(2)] kept by simp
    show "devs k' q \<noteq> None" if "holders k' q \<noteq> {}" for q
    proof -
      from that h have "holders k q \<noteq> {}" by auto
      then show ?thesis
        using refs_okD(3) [OF assms(2), of q] kept by simp
    qed
    show "devs k' q \<noteq> None" if "registered k' q" for q
      using that refs_okD(4) [OF assms(2), of q] kept by simp
    show "int (card (holders k' q)) + (if registered k' q then 1 else 0) \<le> kref dev'"
      if "devs k' q = Some dev'" for q dev'
    proof (cases "q = p")
      case True
      with that kept have "kref dev' = kref dev - 1" by auto
      moreover from fp fin [of p] have "card (holders k' p) = card (holders k p) - 1"
        by (simp add: h)
      moreover from fp fin [of p] have "0 < card (holders k p)"
        by (auto simp: card_gt_0_iff)
      ultimately show ?thesis
        using refs_okD(5) [OF assms(2) kept(3)] True by (simp add: reg)
    next
      case False
      with that kept have "devs k q = Some dev'" by simp
      moreover have "card (holders k' q) \<le> card (holders k q)"
        using h fin by (simp add: card_Diff1_le)
      ultimately show ?thesis
        using refs_okD(5) [OF assms(2), of q dev'] by (simp add: reg)
    qed
    show "a = b" if "intfdata k' a = Some q" "intfdata k' b = Some q" for a b q
      using refs_okD(6) [OF assms(2), of a q b] that kept by simp
  qed
qed

lemma disconnect_refs_ok:
  assumes "relayboard_disconnect k intf = Some k'" and "refs_ok k"
  shows "refs_ok k'"
proof -
  have fin: "finite (holders k q)" for q
    using refs_okD(2) [OF assms(2)] by (rule finite_holders)
  from assms(1) obtain p dev where p: "intfdata k intf = Some p" and dev: "devs k p = Some dev"
    and i': "intfdata k' = (intfdata k)(intf := None)" and f': "files k' = files k"
    and b': "brk k' = brk k"
    and d': "(kref dev = 1 \<and> devs k' = (devs k)(p := None))
        \<or> (kref dev \<noteq> 1 \<and> devs k' = (devs k)(p \<mapsto> dev\<lparr>interface := None, kref := kref dev - 1\<rparr>))"
    by (cases rule: disconnect_Some_cases) simp_all
  have h: "holders k' q = holders k q" for q
    using f' by (rule holders_cong)
  have regp: "registered k p"
    using p by (auto simp: registered_def)
  have nreg: "\<not> registered k' p"
  proof
    assume "registered k' p"
    then obtain a where "a \<noteq> intf" "intfdata k a = Some p"
      by (auto simp: registered_def i' split: if_splits)
    with refs_okD(6) [OF assms(2), of a p intf] p show False by simp
  qed
  have reg: "registered k' q \<Longrightarrow> registered k q" for q
    by (auto simp: registered_def i' split: if_splits)
  show ?thesis
  proof (rule refs_okI)
    show "bounded k'"
      using refs_okD(1) [OF assms(2)] d' dev b' by (auto simp: bounded_def split: if_splits)
    show "finite (dom (files k'))"
      using refs_okD(2) [OF assms(2)] f' by simp
    show "devs k' q \<noteq> None" if "holders k' q \<noteq> {}" for q
    proof (cases "q = p")
      case True
      from that True have ne: "holders k p \<noteq> {}" by (simp add: h)
      with fin [of p] have "0 < card (holders k p)" by (simp add: card_gt_0_iff)
      with refs_okD(5) [OF assms(2) dev] regp have "kref dev \<noteq> 1" by simp
      with d' True show ?thesis by auto
    next
      case False
      from that have "holders k q \<noteq> {}" by (simp add: h)
      with refs_okD(3) [OF assms(2), of q] False d' show ?thesis by auto
    qed
    show "devs k' q \<noteq> None" if "registered k' q" for q
    proof -
      from that nreg have "q \<noteq> p" by auto
      moreover from that have "registered k q" by (rule reg)
      ultimately show ?thesis
        using refs_okD(4) [OF assms(2), of q] d' by auto
    qed
    show "int (card (holders k' q)) + (if registered k' q then 1 else 0) \<le> kref dev'"
      if "devs k' q = Some dev'" for q dev'
    proof (cases "q = p")
      case True
      with that d' have "kref dev' = kref dev - 1" by auto
      with refs_okD(5) [OF assms(2) dev] regp nreg True show ?thesis
        by (simp add: h)
    next
      case False
      with that d' have "devs k q = Some dev'" by auto
      with refs_okD(5) [OF assms(2), of q dev'] reg [of q] show ?thesis
        by (auto simp: h split: if_splits)
    qed
    show "a = b" if "intfdata k' a = Some q" "intfdata k' b = Some q" for a b q
      using refs_okD(6) [OF assms(2), of a q b] that by (simp add: i' split: if_splits)
  qed
qed

lemma probe_refs_ok:
  assumes "relayboard_probe k intf usbdev descr alloc_ok result minor = Some (k', r)"
    and "refs_ok k"
  shows "refs_ok k'"
proof -
  let ?p = "brk k"
  have fresh: "devs k ?p = None"
    using refs_okD(1) [OF assms(2)] by (auto simp: bounded_def)
  then have nh: "holders k ?p = {}" and nr: "\<not> registered k ?p"
    using refs_okD(3) [OF assms(2), of ?p] refs_okD(4) [OF assms(2), of ?p] by auto
  from assms(1) show ?thesis
  proof (cases rule: probe_Some_cases)
    case nomatch
    with assms(2) show ?thesis by simp
  next
    case nomem
    with assms(2) show ?thesis by simp
  next
    case unregistered
    have reg: "registered k' q \<Longrightarrow> registered k q" for q
      using unregistered by (auto simp: registered_def split: if_splits)
    have dv: "devs k' = devs k"
      using unregistered fresh by (simp add: fun_upd_idem)
    show ?thesis
    proof (rule refs_okI)
      show "bounded k'"
        using refs_okD(1) [OF assms(2)] dv unregistered by (auto simp: bounded_def less_Suc_eq)
      show "finite (dom (files k'))"
        using refs_okD(2) [OF assms(2)] unregistered by simp
      show "devs k' q \<noteq> None" if "holders k' q \<noteq> {}" for q
        using that refs_okD(3) [OF assms(2), of q] dv unregistered by simp
      show "devs k' q \<noteq> None" if "registered k' q" for q
        using reg [OF that] refs_okD(4) [OF assms(2), of q] dv by simp
      show "int (card (holders k' q)) + (if registered k' q then 1 else 0) \<le> kref dev'"
        if "devs k' q = Some dev'" for q dev'
        using that refs_okD(5) [OF assms(2), of q dev'] reg [of q] dv unregistered
        by (auto split: if_splits)
      show "a = b" if "intfdata k' a = Some q" "intfdata k' b = Some q" for a b q
        using refs_okD(6) [OF assms(2), of a q b] that unregistered by (simp split: if_splits)
    qed
  next
    case attached
    have hh: "holders k' q = holders k q" for q
      using attached by simp
    have reg: "registered k' q \<Longrightarrow> q = ?p \<or> registered k q" for q
      using attached by (auto simp: registered_def split: if_splits)
    show ?thesis
    proof (rule refs_okI)
      show "bounded k'"
        using refs_okD(1) [OF assms(2)] attached by (auto simp: bounded_def less_Suc_eq)
      show "finite (dom (files k'))"
        using refs_okD(2) [OF assms(2)] attached by simp
      show "devs k' q \<noteq> None" if "holders k' q \<noteq> {}" for q
        using that refs_okD(3) [OF assms(2), of q] attached by (simp add: hh)
      show "devs k' q \<noteq> None" if "registered k' q" for q
        using reg [OF that] refs_okD(4) [OF assms(2), of q] attached by auto
      show "int (card (holders k' q)) + (if registered k' q then 1 else 0) \<le> kref dev'"
        if "devs k' q = Some dev'" for q dev'
      proof (cases "q = ?p")
        case True
        with that attached have "kref dev' = 1" by auto
        with True nh show ?thesis by (simp add: hh)
      next
        case False
        with that attached have "devs k q = Some dev'" by simp
        with refs_okD(5) [OF assms(2), of q dev'] reg [of q] False show ?thesis
          by (auto simp: hh split: if_splits)
      qed
      show "a = b" if "intfdata k' a = Some q" "intfdata k' b = Some q" for a b q
      proof (cases "q = ?p")
        case True
        with that attached nr show ?thesis
          by (auto simp: registered_def split: if_splits)
      next
        case False
        with that attached refs_okD(6) [OF assms(2), of a q b] show ?thesis
          by (auto split: if_splits)
      qed
    qed
  qed
qed

lemma step_refs_ok:
  assumes "step HZ c k = Some (k', r)" and "refs_ok k"
  shows "refs_ok k'"
proof (cases c)
  case (Probe intf usbdev descr alloc_ok result minor)
  with assms show ?thesis by (auto intro: probe_refs_ok)
next
  case (Disconnect intf)
  with assms show ?thesis by (auto intro: disconnect_refs_ok)
next
  case (Open minor fl alloc_ok)
  with assms show ?thesis by (auto intro: open_refs_ok)
next
  case (Close fl)
  with assms show ?thesis by (auto intro: close_refs_ok)
next
  case (Read fl count jiffies writable)
  with assms show ?thesis by (auto intro: read_refs_ok)
next
  case (Write fl payload slack alloc_ok copy_ok)
  with assms show ?thesis by (auto intro: write_refs_ok)
qed

lemma run_refs_ok: "run HZ cs k = Some k' \<Longrightarrow> refs_ok k \<Longrightarrow> refs_ok k'"
proof (induction cs arbitrary: k)
  case Nil
  then show ?case by simp
next
  case (Cons c cs)
  from Cons.prems(1) obtain k1 r where s: "step HZ c k = Some (k1, r)" and r: "run HZ cs k1 = Some k'"
    by (auto split: option.splits)
  from s Cons.prems(2) have "refs_ok k1" by (rule step_refs_ok)
  with r show ?case by (rule Cons.IH)
qed

text \<open>In every state the driver reaches from boot, an open file points to an allocated
  device structure, and the counter of that structure covers every open file on it and
  the registration.\<close>

lemma reachable_handle:
  assumes "run HZ cs (boot r0) = Some k" and "files k f = Some infos" and "device infos = Some p"
  obtains dev where "devs k p = Some dev" "int (card (holders k p)) + (if registered k p then 1 else 0) \<le> kref dev"
    "0 < card (holders k p)"
proof -
  have ok: "refs_ok k"
    using assms(1) boot_refs_ok by (rule run_refs_ok)
  have fp: "f \<in> holders k p"
    using assms(2,3) by (auto simp: holders_def)
  then have "holders k p \<noteq> {}" by auto
  with refs_okD(3) [OF ok, of p] obtain dev where dev: "devs k p = Some dev" by auto
  have "finite (holders k p)"
    using refs_okD(2) [OF ok] by (rule finite_holders)
  with fp have "0 < card (holders k p)" by (auto simp: card_gt_0_iff)
  with dev refs_okD(5) [OF ok dev] that show ?thesis by blast
qed

subsection \<open>After the detach\<close>

lemma read_depends_on_masks:
  assumes a: "files k' g = files k g"
    and b: "\<And>p. map_option relay_states (devs k' p) = map_option relay_states (devs k p)"
  shows "map_option snd (relayboard_read HZ k' g count jiffies writable) =
         map_option snd (relayboard_read HZ k g count jiffies writable)"
proof (cases "files k g")
  case None
  then show ?thesis using a by (simp add: read_eval)
next
  case (Some infos)
  show ?thesis
  proof (cases "device infos")
    case None
    then show ?thesis using a Some by (simp add: read_eval)
  next
    case p: (Some p)
    show ?thesis
    proof (cases "devs k p")
      case None
      with b [of p] have "devs k' p = None" by simp
      with None show ?thesis using a Some p by (simp add: read_eval)
    next
      case d: (Some dev)
      with b [of p] obtain dev' where "devs k' p = Some dev'" "relay_states dev' = relay_states dev"
        by (cases "devs k' p") auto
      with d show ?thesis using a Some p by (simp add: read_eval)
    qed
  qed
qed

lemma cmds_sent_mono: "length (sent bus) \<le> length (sent (fst (cmds dev cs bus)))"
proof (induction cs arbitrary: bus)
  case Nil
  show ?case by simp
next
  case (Cons c cs)
  have "length (sent bus) \<le> length (sent (bus\<lparr>sent := sent bus @ [bulk_out dev c]\<rparr>))"
    by simp
  also have "\<dots> \<le> length (sent (fst (cmds dev cs (bus\<lparr>sent := sent bus @ [bulk_out dev c]\<rparr>))))"
    by (rule Cons.IH)
  finally show ?case
    by (simp add: cmds_Cons del: cmds.simps(2))
qed

lemma cmds_sent_grows: "cs \<noteq> [] \<Longrightarrow> length (sent bus) < length (sent (fst (cmds dev cs bus)))"
proof (cases cs)
  case Nil
  assume "cs \<noteq> []"
  with Nil show ?thesis by simp
next
  case (Cons c cs')
  have "length (sent bus) < length (sent (bus\<lparr>sent := sent bus @ [bulk_out dev c]\<rparr>))"
    by simp
  also have "\<dots> \<le> length (sent (fst (cmds dev cs' (bus\<lparr>sent := sent bus @ [bulk_out dev c]\<rparr>))))"
    by (rule cmds_sent_mono)
  finally show ?thesis
    by (simp add: Cons cmds_Cons del: cmds.simps(2))
qed

lemma send_status_sends:
  assumes "relayboard_send_status bus dev status = (b, dev', r)"
  shows "length (sent bus) < length (sent b)"
proof -
  have "commit_payloads status \<noteq> []"
    using length_commit_payloads [of status] by auto
  then have "length (sent bus) < length (sent (fst (cmds dev (commit_payloads status) bus)))"
    by (rule cmds_sent_grows)
  with assms show ?thesis
    by (auto simp: relayboard_send_status_cmds split: prod.splits if_splits)
qed

lemma goneI:
  assumes "p < brk k" and "\<And>i. intfdata k i \<noteq> Some p"
    and "\<And>dev. devs k p = Some dev \<Longrightarrow> interface dev = None"
  shows "gone k p"
  using assms unfolding gone_def registered_def by blast

lemma goneD:
  assumes "gone k p"
  shows "p < brk k" and "intfdata k i \<noteq> Some p"
    and "devs k p = Some dev \<Longrightarrow> interface dev = None"
  using assms unfolding gone_def registered_def by blast+

lemma probe_gone:
  assumes "relayboard_probe k intf usbdev descr alloc_ok result minor = Some (k', r)" and "gone k p"
  shows "gone k' p"
proof (cases rule: probe_Some_cases [OF assms(1)])
  case 1
  with assms(2) show ?thesis by simp
next
  case 2
  with assms(2) show ?thesis by simp
next
  case 3
  show ?thesis
    using goneD [OF assms(2)] by (intro goneI) (auto simp: 3)
next
  case 4
  show ?thesis
    using goneD [OF assms(2)] by (intro goneI) (auto simp: 4)
qed

lemma disconnect_gone:
  assumes "relayboard_disconnect k intf = Some k'" and "gone k p"
  shows "gone k' p"
proof (cases rule: disconnect_Some_cases [OF assms(1)])
  case (1 q dev)
  show ?thesis
    using goneD [OF assms(2)] by (intro goneI) (auto simp: 1 split: if_splits)
next
  case (2 q dev)
  from goneD(2) [OF assms(2), of intf] 2(1) have "q \<noteq> p" by auto
  then show ?thesis
    using goneD [OF assms(2)] by (intro goneI) (auto simp: 2)
qed

lemma open_gone:
  assumes "relayboard_open k minor f alloc_ok = Some (k', r)" and "gone k p"
  shows "gone k' p"
proof (cases rule: open_Some_cases [OF assms(1)])
  case 1
  with assms(2) show ?thesis by simp
next
  case (2 intf q dev)
  from goneD(2) [OF assms(2), of intf] 2(2) have "q \<noteq> p" by auto
  then show ?thesis
    using goneD [OF assms(2)] by (intro goneI) (auto simp: 2)
next
  case (3 intf q dev)
  from goneD(2) [OF assms(2), of intf] 3(2) have "q \<noteq> p" by auto
  then show ?thesis
    using goneD [OF assms(2)] by (intro goneI) (auto simp: 3)
qed

lemma close_gone:
  assumes "relayboard_close k f = Some (k', r)" and "gone k p"
  shows "gone k' p"
proof (cases rule: close_Some_cases [OF assms(1)])
  case (1 infos)
  with assms(2) show ?thesis by simp
next
  case (2 infos q dev)
  show ?thesis
    using goneD [OF assms(2)] by (intro goneI) (auto simp: 2 split: if_splits)
next
  case (3 infos q dev)
  show ?thesis
    using goneD [OF assms(2)] 3(3) by (intro goneI) (auto simp: 3(6) split: if_splits)
qed

lemma read_gone:
  assumes "relayboard_read HZ k f count jiffies writable = Some (k', n, d)" and "gone k p"
  shows "gone k' p"
proof (cases rule: read_Some_cases [OF assms(1)])
  case 1
  with assms(2) show ?thesis by simp
next
  case (2 infos q dev)
  show ?thesis
    using goneD [OF assms(2)] by (intro goneI) (auto simp: 2(6))
qed

lemma write_gone:
  fixes k :: "('w::len) kernel"
  assumes "relayboard_write k f payload slack alloc_ok copy_ok = Some (k', r)" and "gone k p"
  shows "gone k' p"
proof (cases rule: write_Some_cases [OF assms(1)])
  case 1
  show ?thesis
    using goneD [OF assms(2)] by (intro goneI) (auto simp: 1)
next
  case (2 infos q dev)
  show ?thesis
    using goneD [OF assms(2)] 2(3) by (intro goneI) (auto simp: 2 split: if_splits)
qed

lemma step_gone:
  assumes "step HZ c k = Some (k', r)" and "gone k p"
  shows "gone k' p"
proof (cases c)
  case (Probe intf usbdev descr alloc_ok result minor)
  with assms show ?thesis by (auto intro: probe_gone)
next
  case (Disconnect intf)
  with assms show ?thesis by (auto intro: disconnect_gone)
next
  case (Open minor fl alloc_ok)
  with assms show ?thesis by (auto intro: open_gone)
next
  case (Close fl)
  with assms show ?thesis by (auto intro: close_gone)
next
  case (Read fl count jiffies writable)
  with assms show ?thesis by (auto intro: read_gone)
next
  case (Write fl payload slack alloc_ok copy_ok)
  with assms show ?thesis by (auto intro: write_gone)
qed

lemma run_gone: "run HZ cs k = Some k' \<Longrightarrow> gone k p \<Longrightarrow> gone k' p"
proof (induction cs arbitrary: k)
  case Nil
  then show ?case by simp
next
  case (Cons c cs)
  from Cons.prems(1) obtain k1 r where s: "step HZ c k = Some (k1, r)" and r: "run HZ cs k1 = Some k'"
    by (auto split: option.splits)
  from s Cons.prems(2) have "gone k1 p" by (rule step_gone)
  with r show ?case by (rule Cons.IH)
qed


lemma write_through_handle:
  fixes k :: "('w::len) kernel"
  assumes "files k f = Some infos" and "device infos = Some p" and "devs k p = Some dev"
    and ne: "payload \<noteq> []"
  shows "\<exists>k' r. relayboard_write k f payload slack True True = Some (k', r)
               \<and> (r = - EFAULT \<or> r = int (length payload))
               \<and> length (sent (usb k)) < length (sent (usb k'))
               \<and> ((\<forall>i < 27. accepts (reply (usb k) (length (sent (usb k)) + i))) \<longrightarrow>
                    r = int (length payload)
                    \<and> sent (usb k') = sent (usb k) @ map (bulk_out dev)
                         (commit_payloads (ucast (simple_strtoul (payload @ slack) :: 'w word)))
                    \<and> map_option relay_states (devs k' p) =
                         Some (ucast (simple_strtoul (payload @ slack) :: 'w word)))"
proof -
  let ?m = "ucast (simple_strtoul (payload @ slack) :: 'w word) :: byte"
  obtain b dev' r' where s: "relayboard_send_status (usb k) dev ?m = (b, dev', r')"
    by (cases "relayboard_send_status (usb k) dev ?m") auto
  let ?k' = "k\<lparr>usb := b, devs := (devs k)(p \<mapsto> dev')\<rparr>"
  let ?r = "if r' \<noteq> 0 then - EFAULT else int (length payload)"
  have w: "relayboard_write k f payload slack True True = Some (?k', ?r)"
    using write_sends [of k f infos p dev payload slack] assms s by simp
  have grows: "length (sent (usb k)) < length (sent (usb ?k'))"
    using send_status_sends [OF s] by simp
  have acc: "?r = int (length payload)
        \<and> sent (usb ?k') = sent (usb k) @ map (bulk_out dev) (commit_payloads ?m)
        \<and> map_option relay_states (devs ?k' p) = Some ?m"
    if "\<forall>i < 27. accepts (reply (usb k) (length (sent (usb k)) + i))"
    using send_status_accepted [OF that, of dev ?m] s by auto
  from w grows acc show ?thesis
    by (intro exI [of _ ?k'] exI [of _ ?r]) auto
qed

lemma run_append:
  "run HZ (as @ bs) k = (case run HZ as k of None \<Rightarrow> None | Some k1 \<Rightarrow> run HZ bs k1)"
  by (induction as arbitrary: k) (auto split: option.splits)

text \<open>
  C4, as the code has it. The driver keeps no liveness flag and checks nothing in
  \<open>relayboard_write\<close> or \<open>relayboard_read\<close>. In every state reached from boot, for a
  file opened on a device before its detach: the counter of the device structure is at
  least 2; the detach succeeds, clears the driver data and the minors of the interface,
  clears \<open>interface\<close> in the structure and drops the reference of the registration (the
  counter goes down by one), and leaves the structure allocated and every file as it
  was; right after it every read returns what it would have returned without the
  detach. After any further calls into the driver, as long as the file is still open on
  that structure: the structure is allocated with \<open>interface\<close> cleared and a counter of
  at least 1, and no interface has it as driver data; a read through the file is
  refused with no data when the count is below 4 or the throttle rejects it and
  otherwise returns the mask text, never an error; a write (with its buffer allocated
  and copied) still runs the command sequence: it hands at least one frame to the bus
  and returns either \<open>-EFAULT\<close>, when the bus refuses a frame, or its byte count; when
  the bus accepts all 27 frames it succeeds and sets the shadow mask.
\<close>

theorem detached_handle_still_served:
  fixes k :: "('w::len) kernel"
  assumes "run HZ cs (boot r0) = Some k"
    and "files k f = Some infos" and "device infos = Some p" and "intfdata k intf = Some p"
  shows "\<exists>kd dev0.
      devs k p = Some dev0 \<and> 2 \<le> kref dev0
      \<and> relayboard_disconnect k intf = Some kd
      \<and> kd = k\<lparr>intfdata := (intfdata k)(intf := None),
                minors := (\<lambda>m. if minors k m = Some intf then None else minors k m),
                devs := (devs k)(p \<mapsto> dev0\<lparr>interface := None, kref := kref dev0 - 1\<rparr>)\<rparr>
      \<and> (\<forall>g count jiffies writable.
            map_option snd (relayboard_read HZ kd g count jiffies writable) =
            map_option snd (relayboard_read HZ k g count jiffies writable))
      \<and> (\<forall>later k2 infos2.
            run HZ later kd = Some k2 \<and> files k2 f = Some infos2 \<and> device infos2 = Some p \<longrightarrow>
            (\<exists>dev2. devs k2 p = Some dev2 \<and> interface dev2 = None \<and> 1 \<le> kref dev2
               \<and> (\<forall>i. intfdata k2 i \<noteq> Some p)
               \<and> (\<forall>count jiffies writable.
                     relayboard_read HZ k2 f count jiffies writable =
                       (if count < 4 \<or> jiffies - last_call infos2 < of_nat (HZ div 2)
                        then Some (k2, 0, [])
                        else Some (k2\<lparr>files := (files k2)(f \<mapsto> infos2\<lparr>last_call := jiffies\<rparr>)\<rparr>,
                                   int (min (length (mask_text (relay_states dev2))) writable),
                                   take writable (mask_text (relay_states dev2)))))
               \<and> (\<forall>payload slack. payload \<noteq> [] \<longrightarrow>
                    (\<exists>k' r. relayboard_write k2 f payload slack True True = Some (k', r)
                       \<and> (r = - EFAULT \<or> r = int (length payload))
                       \<and> length (sent (usb k2)) < length (sent (usb k'))
                       \<and> ((\<forall>i < 27. accepts (reply (usb k2) (length (sent (usb k2)) + i))) \<longrightarrow>
                            r = int (length payload)
                            \<and> sent (usb k') = sent (usb k2) @ map (bulk_out dev2)
                                 (commit_payloads (ucast (simple_strtoul (payload @ slack) :: 'w word)))
                            \<and> map_option relay_states (devs k' p) =
                                 Some (ucast (simple_strtoul (payload @ slack) :: 'w word)))))))"
proof -
  have ok: "refs_ok k"
    using assms(1) boot_refs_ok by (rule run_refs_ok)
  from assms(1-3) obtain dev0 where dev0: "devs k p = Some dev0"
    and cnt: "int (card (holders k p)) + (if registered k p then 1 else 0) \<le> kref dev0"
      "0 < card (holders k p)"
    by (rule reachable_handle)
  have "registered k p"
    using assms(4) by (auto simp: registered_def)
  with cnt have kref: "2 \<le> kref dev0" by simp
  let ?dev = "dev0\<lparr>interface := None, kref := kref dev0 - 1\<rparr>"
  let ?kd = "k\<lparr>intfdata := (intfdata k)(intf := None),
                minors := (\<lambda>m. if minors k m = Some intf then None else minors k m),
                devs := (devs k)(p \<mapsto> ?dev)\<rparr>"
  have dis: "relayboard_disconnect k intf = Some ?kd"
    using assms(4) dev0 kref
    by (simp add: relayboard_disconnect_def kref_put_def Let_def)
  have reads: "map_option snd (relayboard_read HZ ?kd g count jiffies writable) =
      map_option snd (relayboard_read HZ k g count jiffies writable)" for g count jiffies writable
    by (rule read_depends_on_masks) (simp_all add: dev0)
  have "bounded k"
    using ok by (rule refs_okD(1))
  with dev0 have below: "p < brk k"
    by (auto simp: bounded_def)
  have unreg: "intfdata ?kd i \<noteq> Some p" for i
    using refs_okD(6) [OF ok, of i p intf] assms(4) by auto
  have gd: "gone ?kd p"
    using below unreg by (intro goneI) auto
  have later: "\<exists>dev2. devs k2 p = Some dev2 \<and> interface dev2 = None \<and> 1 \<le> kref dev2
               \<and> (\<forall>i. intfdata k2 i \<noteq> Some p)
               \<and> (\<forall>count jiffies writable.
                     relayboard_read HZ k2 f count jiffies writable =
                       (if count < 4 \<or> jiffies - last_call infos2 < of_nat (HZ div 2)
                        then Some (k2, 0, [])
                        else Some (k2\<lparr>files := (files k2)(f \<mapsto> infos2\<lparr>last_call := jiffies\<rparr>)\<rparr>,
                                   int (min (length (mask_text (relay_states dev2))) writable),
                                   take writable (mask_text (relay_states dev2)))))
               \<and> (\<forall>payload slack. payload \<noteq> [] \<longrightarrow>
                    (\<exists>k' r. relayboard_write k2 f payload slack True True = Some (k', r)
                       \<and> (r = - EFAULT \<or> r = int (length payload))
                       \<and> length (sent (usb k2)) < length (sent (usb k'))
                       \<and> ((\<forall>i < 27. accepts (reply (usb k2) (length (sent (usb k2)) + i))) \<longrightarrow>
                            r = int (length payload)
                            \<and> sent (usb k') = sent (usb k2) @ map (bulk_out dev2)
                                 (commit_payloads (ucast (simple_strtoul (payload @ slack) :: 'w word)))
                            \<and> map_option relay_states (devs k' p) =
                                 Some (ucast (simple_strtoul (payload @ slack) :: 'w word)))))"
    if run2: "run HZ later ?kd = Some k2" and f2: "files k2 f = Some infos2"
      and p2: "device infos2 = Some p" for later k2 infos2
  proof -
    have "run HZ (cs @ Disconnect intf # later) (boot r0) = Some k2"
      by (simp add: run_append assms(1) dis run2)
    from this f2 p2 obtain dev2 where dev2: "devs k2 p = Some dev2"
      and cnt2: "int (card (holders k2 p)) + (if registered k2 p then 1 else 0) \<le> kref dev2"
        "0 < card (holders k2 p)"
      by (rule reachable_handle)
    from cnt2 have held: "1 \<le> kref dev2"
      by (simp split: if_splits)
    have g2: "gone k2 p"
      using run2 gd by (rule run_gone)
    have i2: "interface dev2 = None"
      using g2 dev2 by (rule goneD(3))
    have u2: "intfdata k2 i \<noteq> Some p" for i
      using g2 by (rule goneD(2))
    have r2: "relayboard_read HZ k2 f count jiffies writable =
                       (if count < 4 \<or> jiffies - last_call infos2 < of_nat (HZ div 2)
                        then Some (k2, 0, [])
                        else Some (k2\<lparr>files := (files k2)(f \<mapsto> infos2\<lparr>last_call := jiffies\<rparr>)\<rparr>,
                                   int (min (length (mask_text (relay_states dev2))) writable),
                                   take writable (mask_text (relay_states dev2))))"
      for count jiffies writable
      by (simp add: read_eval f2 p2 dev2)
    note w2 = write_through_handle [OF f2 p2 dev2]
    from dev2 i2 held u2 r2 w2 show ?thesis
      by (intro exI [of _ dev2] conjI allI impI)
  qed
  have R: "\<forall>g count jiffies writable.
            map_option snd (relayboard_read HZ ?kd g count jiffies writable) =
            map_option snd (relayboard_read HZ k g count jiffies writable)"
    by (intro allI reads)
  show ?thesis
    apply (rule exI [of _ ?kd], rule exI [of _ dev0])
    apply (intro conjI)
         apply (rule dev0)
        apply (rule kref)
       apply (rule dis)
      apply (rule refl)
     apply (rule R)
    apply (intro allI impI)
    apply (elim conjE)
    apply (rule later)
      apply assumption+
    done
qed

theorem detached_handle_still_served_witness:
  "(case run 1000 [Probe 7 3 board True 0 0, Open 0 1 True, Disconnect 7,
                   Write 1 ''9'' [] True True, Read 1 16 5000 16]
           (boot (\<lambda>n. (0, 11)) :: 32 kernel) of
      None \<Rightarrow> False
    | Some k2 \<Rightarrow>
        devs k2 1 = Some \<lparr>udev = 3, interface = None, kref = 1, relay_states = 9\<rparr>
        \<and> intfdata k2 7 = None
        \<and> relayboard_read 1000 k2 1 16 5100 16 = Some (k2, 0, [])
        \<and> map_option snd (relayboard_read 1000 k2 1 16 6000 16) = Some (2, [CHR ''9'', CHR 0x0A])
        \<and> (case relayboard_write k2 1 ''5'' [] True True of
              None \<Rightarrow> False
            | Some (k', r) \<Rightarrow>
                r = 1 \<and> length (sent (usb k')) = 54
                \<and> map_option relay_states (devs k' 1) = Some 5))"
proof -
  let ?r = "\<lambda>n::nat. (0, 11) :: int \<times> int"
  let ?k = "opened ?r 0 :: 32 kernel"
  let ?i = "\<lparr>device = Some 1, last_call = 0 :: 32 word\<rparr>"
  let ?i2 = "\<lparr>device = Some 1, last_call = 5000 :: 32 word\<rparr>"
  let ?dev0 = "\<lparr>udev = 3, interface = Some 7, kref = 2, relay_states = 0\<rparr>"
  let ?devd = "\<lparr>udev = 3, interface = None, kref = 1, relay_states = 0\<rparr>"
  let ?dev9 = "\<lparr>udev = 3, interface = None, kref = 1, relay_states = 9\<rparr>"
  let ?kd = "?k\<lparr>intfdata := (intfdata ?k)(7 := None),
                minors := (\<lambda>m. if minors ?k m = Some 7 then None else minors ?k m),
                devs := (devs ?k)(1 \<mapsto> ?devd)\<rparr>"
  let ?b9 = "(usb ?kd)\<lparr>sent := sent (usb ?kd) @ map (bulk_out ?devd) (commit_payloads 9)\<rparr>"
  let ?kw = "?kd\<lparr>usb := ?b9, devs := (devs ?kd)(1 \<mapsto> ?dev9)\<rparr>"
  let ?k2 = "?kw\<lparr>files := (files ?kw)(1 \<mapsto> ?i2)\<rparr>"
  have hyps: "files ?k 1 = Some ?i" "device ?i = Some 1" "intfdata ?k 7 = Some 1"
    by (simp_all add: opened_def)
  from detached_handle_still_served [OF opened_reachable [of 1000 ?r] hyps]
  obtain kd dev0 where d0: "devs ?k 1 = Some dev0"
    and dis: "relayboard_disconnect ?k 7 = Some kd"
    and kd: "kd = ?k\<lparr>intfdata := (intfdata ?k)(7 := None),
                minors := (\<lambda>m. if minors ?k m = Some 7 then None else minors ?k m),
                devs := (devs ?k)(1 \<mapsto> dev0\<lparr>interface := None, kref := kref dev0 - 1\<rparr>)\<rparr>"
    and later: "\<forall>later k2 infos2.
        run 1000 later kd = Some k2 \<and> files k2 1 = Some infos2 \<and> device infos2 = Some 1 \<longrightarrow>
        (\<exists>dev2. devs k2 1 = Some dev2 \<and> interface dev2 = None \<and> 1 \<le> kref dev2
           \<and> (\<forall>i. intfdata k2 i \<noteq> Some 1)
           \<and> (\<forall>count jiffies writable.
                 relayboard_read 1000 k2 1 count jiffies writable =
                   (if count < 4 \<or> jiffies - last_call infos2 < of_nat (1000 div 2)
                    then Some (k2, 0, [])
                    else Some (k2\<lparr>files := (files k2)(1 \<mapsto> infos2\<lparr>last_call := jiffies\<rparr>)\<rparr>,
                               int (min (length (mask_text (relay_states dev2))) writable),
                               take writable (mask_text (relay_states dev2)))))
           \<and> (\<forall>payload slack. payload \<noteq> [] \<longrightarrow>
                (\<exists>k' r. relayboard_write k2 1 payload slack True True = Some (k', r)
                   \<and> (r = - EFAULT \<or> r = int (length payload))
                   \<and> length (sent (usb k2)) < length (sent (usb k'))
                   \<and> ((\<forall>i < 27. accepts (reply (usb k2) (length (sent (usb k2)) + i))) \<longrightarrow>
                        r = int (length payload)
                        \<and> sent (usb k') = sent (usb k2) @ map (bulk_out dev2)
                             (commit_payloads (ucast (simple_strtoul (payload @ slack) :: 32 word)))
                        \<and> map_option relay_states (devs k' 1) =
                             Some (ucast (simple_strtoul (payload @ slack) :: 32 word))))))"
    by (elim exE conjE) (rule that; assumption)
  from d0 have "dev0 = ?dev0"
    by (simp add: opened_def)
  with kd have kd': "kd = ?kd"
    by simp
  \<comment> \<open>the calls after the detach\<close>
  have m9: "(ucast (simple_strtoul ''9'' :: 32 word) :: byte) = 9"
    and m5: "(ucast (simple_strtoul ''5'' :: 32 word) :: byte) = 5"
    by (simp_all add: simple_strtoul_def isdigit_def)
  have ss: "relayboard_send_status (usb ?kd) ?devd 9 = (?b9, ?devd\<lparr>relay_states := 9\<rparr>, 0)"
    by (rule send_status_accepted) (simp add: opened_def accepts_def)
  have w0: "relayboard_write ?kd 1 ''9'' [] True True =
      (case relayboard_send_status (usb ?kd) ?devd (ucast (simple_strtoul (''9'' @ []) :: 32 word)) of
         (bus', dev', r) \<Rightarrow>
           Some (?kd\<lparr>usb := bus', devs := (devs ?kd)(1 \<mapsto> dev')\<rparr>,
                 if r \<noteq> 0 then - EFAULT else int (length ''9'')))"
    by (rule write_sends [where infos = ?i]) (simp_all add: opened_def)
  have w9: "relayboard_write ?kd 1 ''9'' [] True True = Some (?kw, 1)"
    unfolding w0 append_Nil2 m9 ss by simp
  have t9: "mask_text 9 = [CHR ''9'', CHR 0x0A]"
    by (simp add: mask_text_def decimal.simps)
  have r9: "relayboard_read 1000 ?kw 1 16 5000 16 = Some (?k2, 2, [CHR ''9'', CHR 0x0A])"
    by (simp add: read_eval opened_def t9)
  have run2: "run 1000 [Write 1 ''9'' [] True True, Read 1 16 5000 16] kd = Some ?k2"
    by (simp only: kd' run.simps step.simps w9 r9 option.case prod.case option.map)
  have run1: "run 1000 [Disconnect 7] ?k = Some kd"
    by (simp add: dis)
  have "run 1000 (([Probe 7 3 board True 0 0, Open 0 1 True] @ [Disconnect 7]) @
      [Write 1 ''9'' [] True True, Read 1 16 5000 16]) (boot ?r) = Some ?k2"
    by (simp only: run_append opened_reachable run1 run2 option.case)
  then have run: "run 1000 [Probe 7 3 board True 0 0, Open 0 1 True, Disconnect 7,
      Write 1 ''9'' [] True True, Read 1 16 5000 16] (boot ?r) = Some ?k2"
    by simp
  have f2: "files ?k2 1 = Some ?i2" and p2: "device ?i2 = Some 1"
    by simp_all
  from later [rule_format, OF conjI [OF run2 conjI [OF f2 p2]]]
  obtain dev2 where dev2: "devs ?k2 1 = Some dev2"
    and rd: "\<forall>count jiffies writable.
                 relayboard_read 1000 ?k2 1 count jiffies writable =
                   (if count < 4 \<or> jiffies - last_call ?i2 < of_nat (1000 div 2)
                    then Some (?k2, 0, [])
                    else Some (?k2\<lparr>files := (files ?k2)(1 \<mapsto> ?i2\<lparr>last_call := jiffies\<rparr>)\<rparr>,
                               int (min (length (mask_text (relay_states dev2))) writable),
                               take writable (mask_text (relay_states dev2))))"
    and wr: "\<forall>payload slack. payload \<noteq> [] \<longrightarrow>
                (\<exists>k' r. relayboard_write ?k2 1 payload slack True True = Some (k', r)
                   \<and> (r = - EFAULT \<or> r = int (length payload))
                   \<and> length (sent (usb ?k2)) < length (sent (usb k'))
                   \<and> ((\<forall>i < 27. accepts (reply (usb ?k2) (length (sent (usb ?k2)) + i))) \<longrightarrow>
                        r = int (length payload)
                        \<and> sent (usb k') = sent (usb ?k2) @ map (bulk_out dev2)
                             (commit_payloads (ucast (simple_strtoul (payload @ slack) :: 32 word)))
                        \<and> map_option relay_states (devs k' 1) =
                             Some (ucast (simple_strtoul (payload @ slack) :: 32 word))))"
    by (elim exE conjE) (rule that; assumption)
  from dev2 have d2: "dev2 = ?dev9"
    by simp
  have c1: "devs ?k2 1 = Some ?dev9" and c2: "intfdata ?k2 7 = None"
    by simp_all
  have c3: "relayboard_read 1000 ?k2 1 16 5100 16 = Some (?k2, 0, [])"
    using rd [rule_format, of 16 5100 16] by simp
  have c4: "map_option snd (relayboard_read 1000 ?k2 1 16 6000 16) = Some (2, [CHR ''9'', CHR 0x0A])"
    using rd [rule_format, of 16 6000 16] by (simp add: d2 t9)
  have acc: "\<forall>i < 27. accepts (reply (usb ?k2) (length (sent (usb ?k2)) + i))"
    by (simp add: opened_def accepts_def)
  from wr [rule_format, of "''5''" "[]"] acc obtain k' r where w: "relayboard_write ?k2 1 ''5'' [] True True = Some (k', r)"
    and r: "r = 1"
    and s: "sent (usb k') = sent (usb ?k2) @ map (bulk_out dev2) (commit_payloads 5)"
    and m: "map_option relay_states (devs k' 1) = Some 5"
    by (auto simp: m5)
  from s have n: "length (sent (usb k')) = 54"
    by (simp add: opened_def length_commit_payloads)
  from c1 c2 c3 c4 r n m show ?thesis
    by (simp only: run w option.case prod.case, simp?)
qed

text \<open>After the detach, a read through the file opened before still returns the mask, and
  a write still hands a frame to the bus; when the bus refuses it the write fails with
  \<open>-EFAULT\<close>, the transport error, not with \<open>-ENODEV\<close>.\<close>

theorem detached_handle_counterexample:
  "(case run 1000 [Probe 7 3 board True 0 0, Open 0 1 True, Disconnect 7]
           (boot (\<lambda>n. (- 19, 0)) :: 32 kernel) of
      None \<Rightarrow> False
    | Some kd \<Rightarrow>
        map_option snd (relayboard_read 1000 kd 1 16 5000 16) = Some (2, [CHR ''0'', CHR 0x0A])
        \<and> (case relayboard_write kd 1 ''5'' [] True True of
              None \<Rightarrow> False
            | Some (k', r) \<Rightarrow> r = - EFAULT \<and> r \<noteq> - ENODEV \<and> length (sent (usb k')) = 1))"
proof -
  let ?r = "\<lambda>n::nat. (- 19, 0) :: int \<times> int"
  let ?k = "opened ?r 0 :: 32 kernel"
  let ?dev = "\<lparr>udev = 3, interface = None, kref = 1, relay_states = 0\<rparr>"
  let ?kd = "?k\<lparr>intfdata := (intfdata ?k)(7 := None),
                minors := (\<lambda>m. if minors ?k m = Some 7 then None else minors ?k m),
                devs := (devs ?k)(1 \<mapsto> ?dev)\<rparr>"
  have "intfdata ?k 7 = Some 1"
    and "devs ?k 1 = Some \<lparr>udev = 3, interface = Some 7, kref = 2, relay_states = 0\<rparr>"
    by (simp_all add: opened_def)
  then have dis: "relayboard_disconnect ?k 7 = Some ?kd"
    by (simp add: relayboard_disconnect_def kref_put_def Let_def)
  have "run 1000 ([Probe 7 3 board True 0 0, Open 0 1 True] @ [Disconnect 7]) (boot ?r) = Some ?kd"
    unfolding run_append opened_reachable by (simp add: dis)
  then have run: "run 1000 [Probe 7 3 board True 0 0, Open 0 1 True, Disconnect 7] (boot ?r) = Some ?kd"
    by simp
  have rd: "map_option snd (relayboard_read 1000 ?kd 1 16 5000 16) = Some (2, [CHR ''0'', CHR 0x0A])"
    by (simp add: read_eval opened_def mask_text_0)
  let ?b = "(usb ?kd)\<lparr>sent := sent (usb ?kd) @ map (bulk_out ?dev) (take (Suc 0) (commit_payloads 5))\<rparr>"
  have m5: "(ucast (simple_strtoul ''5'' :: 32 word) :: byte) = 5"
    by (simp add: simple_strtoul_def isdigit_def)
  have ss: "relayboard_send_status (usb ?kd) ?dev 5 = (?b, ?dev, - EFAULT)"
    by (rule send_status_refused) (simp_all add: opened_def accepts_def)
  have w0: "relayboard_write ?kd 1 ''5'' [] True True =
      (case relayboard_send_status (usb ?kd) ?dev (ucast (simple_strtoul (''5'' @ []) :: 32 word)) of
         (bus', dev', r) \<Rightarrow>
           Some (?kd\<lparr>usb := bus', devs := (devs ?kd)(1 \<mapsto> dev')\<rparr>,
                 if r \<noteq> 0 then - EFAULT else int (length ''5'')))"
    by (rule write_sends [where infos = "\<lparr>device = Some 1, last_call = 0\<rparr>"])
      (simp_all add: opened_def)
  have w: "relayboard_write ?kd 1 ''5'' [] True True =
      Some (?kd\<lparr>usb := ?b, devs := (devs ?kd)(1 \<mapsto> ?dev)\<rparr>, - EFAULT)"
    unfolding w0 append_Nil2 m5 ss by (simp add: EFAULT_def)
  have n: "length (sent (usb (?kd\<lparr>usb := ?b, devs := (devs ?kd)(1 \<mapsto> ?dev)\<rparr>))) = 1"
    by (simp add: opened_def length_commit_payloads)
  have e: "- EFAULT \<noteq> - ENODEV"
    by (simp add: EFAULT_def ENODEV_def)
  from rd n e show ?thesis
    by (simp only: run w option.case prod.case, simp?)
qed

subsection \<open>Allocation failures\<close>

text \<open>
  C9, as the code has it. When \<open>kzalloc\<close> fails in \<open>relayboard_probe\<close> the call returns
  \<open>-ENOMEM\<close> and the state is untouched. When it fails in \<open>relayboard_open\<close> the call
  returns \<open>-ENOMEM\<close> too, but \<open>kref_get\<close> has run before the allocation and nothing
  undoes it: the counter of the device is one higher than before the call, with no
  file to give the reference back.
\<close>

theorem failed_open_takes_reference:
  fixes k :: "('w::len) kernel"
  assumes "minors k minor = Some intf" and "intfdata k intf = Some p" and "devs k p = Some dev"
  shows "relayboard_open k minor f False =
           Some (k\<lparr>devs := (devs k)(p \<mapsto> dev\<lparr>kref := kref dev + 1\<rparr>)\<rparr>, - ENOMEM)
         \<and> relayboard_probe k intf' usbdev board False result minor' = Some (k, - ENOMEM)"
  using assms
  by (simp add: relayboard_open_def kref_get_def relayboard_probe_def board_def)

theorem failed_open_takes_reference_witness:
  "relayboard_open (opened (\<lambda>n. (0, 11)) 0 :: 32 kernel) 0 2 False =
     Some ((opened (\<lambda>n. (0, 11)) 0)\<lparr>devs :=
              [1 \<mapsto> \<lparr>udev = 3, interface = Some 7, kref = 3, relay_states = 0\<rparr>]\<rparr>, - 12)
   \<and> map_option kref (devs (opened (\<lambda>n. (0, 11)) 0 :: 32 kernel) 1) = Some 2
   \<and> files (opened (\<lambda>n. (0, 11)) 0 :: 32 kernel) 2 = None"
proof -
  let ?k = "opened (\<lambda>n. (0, 11)) 0 :: 32 kernel"
  have hyps: "minors ?k 0 = Some 7" "intfdata ?k 7 = Some 1"
    "devs ?k 1 = Some \<lparr>udev = 3, interface = Some 7, kref = 2, relay_states = 0\<rparr>"
    by (simp_all add: opened_def)
  from failed_open_takes_reference [OF hyps, of 2] show ?thesis
    by (simp add: opened_def ENOMEM_def)
qed

text \<open>
  C5, as the code has it. After one open that failed for lack of memory, the device
  structure outlives the detach and the close of the last open file: its counter stays
  at 1 with no file and no interface pointing to it. Without the failed open the same
  calls free it.
\<close>

theorem lost_reference_never_freed:
  "(case run 1000 [Probe 7 3 board True 0 0, Open 0 1 True, Open 0 2 False, Disconnect 7, Close 1]
           (boot (\<lambda>n. (0, 11)) :: 32 kernel) of
      None \<Rightarrow> False
    | Some k \<Rightarrow> map_option kref (devs k 1) = Some 1 \<and> files k = Map.empty \<and> intfdata k = Map.empty)
   \<and> (case run 1000 [Probe 7 3 board True 0 0, Open 0 1 True, Disconnect 7, Close 1]
           (boot (\<lambda>n. (0, 11)) :: 32 kernel) of
      None \<Rightarrow> False
    | Some k \<Rightarrow> devs k = Map.empty \<and> files k = Map.empty \<and> intfdata k = Map.empty)"
  by (simp add: relayboard_probe_def relayboard_open_def relayboard_disconnect_def
      relayboard_close_def kref_get_def kref_put_def relayboard_free_def boot_def board_def
      ENOMEM_def)

end
